theory Spec2Isabelle
  imports Main "HOL-Library.Word" "HOL-Library.AList"
begin

unbundle bit_operations_syntax

section \<open>mysqlfuse: a MySQL schema projected onto a FUSE directory tree\<close>

text \<open>
  The development embeds \<^verbatim>\<open>src/mysqlfuse.go\<close>: the node operations
  \<^verbatim>\<open>Opendir\<close>, \<^verbatim>\<open>Readdir\<close> and \<^verbatim>\<open>Lookup\<close> of \<^verbatim>\<open>MySQLRoot\<close>, the two
  queries \<^verbatim>\<open>getTables\<close> and \<^verbatim>\<open>getRecordIDs\<close>, and the package-level
  \<^verbatim>\<open>tableMap\<close>. The two files under \<^verbatim>\<open>src/unnamed\<close> are an earlier revision
  of the same two files; the revision modelled is the named one.
\<close>

subsection \<open>Constants and data\<close>

text \<open>
  \<^verbatim>\<open>fileMode = 0644 | uint32(syscall.S_IFREG)\<close> and
  \<^verbatim>\<open>dirMode = 0755 | uint32(syscall.S_IFDIR)\<close>. The three \<^verbatim>\<open>syscall\<close> constants
  have their Linux values; octal 0644 is 0x1A4 and octal 0755 is 0x1ED.
\<close>

definition S_IFMT :: "32 word" where
  "S_IFMT = 0xF000"

definition S_IFREG :: "32 word" where
  "S_IFREG = 0x8000"

definition S_IFDIR :: "32 word" where
  "S_IFDIR = 0x4000"

definition fileMode :: "32 word" where
  "fileMode = 0x1A4 OR S_IFREG"

definition dirMode :: "32 word" where
  "dirMode = 0x1ED OR S_IFDIR"

text \<open>\<^verbatim>\<open>type FileIndex struct { path string; name string }\<close>\<close>

record FileIndex =
  path :: string
  name :: string

text \<open>
  A \<^verbatim>\<open>sync.Map\<close> with string keys, as an association list: \<^verbatim>\<open>Load\<close> is
  \<^const>\<open>map_of\<close>, \<^verbatim>\<open>Store\<close> is \<^const>\<open>AList.update\<close>, \<^verbatim>\<open>Delete\<close> is
  \<^const>\<open>AList.delete\<close>, and \<^verbatim>\<open>Range\<close> visits the pairs of the list. The order
  of the list is never observed by the program.
\<close>

type_synonym 'v syncMap = "(string \<times> 'v) list"

text \<open>
  \<^verbatim>\<open>var tableMap sync.Map // map[string]*sync.Map, value sync.Map is map[string]*FileIndex\<close>.
  The values are pointers, but every \<^verbatim>\<open>Store\<close> into \<^verbatim>\<open>tableMap\<close> installs a
  freshly allocated \<^verbatim>\<open>&sync.Map{}\<close>, so no two keys ever share an inner map, and
  no node keeps such a pointer between two operations: the inner map is therefore
  held in place, as the value of its key. Beside the index the state records, in
  order, the text of every query handed to the database.
\<close>

record state =
  tableMap :: "FileIndex syncMap syncMap"
  issued :: "string list"

definition init :: state where
  "init = \<lparr>tableMap = [], issued = []\<rparr>"

text \<open>
  The receiver. \<^verbatim>\<open>Path\<close> stands for the embedded \<^verbatim>\<open>fs.Inode\<close>: it is what
  \<^verbatim>\<open>r.Path(nil)\<close> returns, the empty string for the mount root, the names from
  the root down joined by slashes otherwise. The handle \<^verbatim>\<open>db\<close> is represented by
  the database the operations are given.
\<close>

record MySQLRoot =
  Path :: string
  dsn :: string
  debug :: bool

definition NewMySQLRoot :: "string \<Rightarrow> bool \<Rightarrow> string \<Rightarrow> MySQLRoot" where
  "NewMySQLRoot d dbg p = \<lparr>Path = p, dsn = d, debug = dbg\<rparr>"

text \<open>\<^verbatim>\<open>fuse.DirEntry\<close>; the program sets \<^verbatim>\<open>Name\<close> and \<^verbatim>\<open>Mode\<close> and leaves \<^verbatim>\<open>Ino\<close> zero.\<close>

record DirEntry =
  Name :: string
  Mode :: "32 word"
  Ino :: "64 word"

text \<open>
  The child returned by a successful \<^verbatim>\<open>Lookup\<close>: \<^verbatim>\<open>r.NewInode(ctx, ops, sa)\<close> with
  \<^verbatim>\<open>sa = fs.StableAttr{Mode: mode}\<close> and \<^verbatim>\<open>ops\<close> carrying the parent's
  configuration. \<^verbatim>\<open>NewInode\<close> belongs to the FUSE library: of the mode it is given
  it keeps the file-type bits only (\<^verbatim>\<open>id.Mode & syscall.S_IFMT\<close>, and the type of
  a regular file when these are zero). The library attaches the node below the
  parent under the looked-up name only after \<^verbatim>\<open>Lookup\<close> has returned.
\<close>

record Inode =
  StableAttr_Mode :: "32 word"
  ops_dsn :: string
  ops_debug :: bool

text \<open>
  What an operation can end with besides \<^verbatim>\<open>fs.OK\<close>: the errno
  \<^verbatim>\<open>syscall.ENOENT\<close>, or the run-time panic of a failed type assertion.
\<close>

datatype error = ENOENT | Panic

subsection \<open>The database\<close>

text \<open>
  \<^verbatim>\<open>database/sql\<close> is outside the repository. A result set is represented by what
  the program observes of it: for each row delivered by \<^verbatim>\<open>rows.Next()\<close> the
  outcome of \<^verbatim>\<open>rows.Scan\<close> into the destination (\<open>None\<close> when \<^verbatim>\<open>Scan\<close> returns
  an error), and the final \<^verbatim>\<open>rows.Err()\<close>. A database answers the text of a query
  with an error or a result set; there is one answer function per destination type.
\<close>

datatype db_error = ErrBadConn | ErrNoSuchTable | ErrOther string

record 'a Rows =
  scans :: "'a option list"
  Err :: "db_error option"

record DB =
  QueryContext_string :: "string \<Rightarrow> db_error + string Rows"
  QueryContext_int64 :: "string \<Rightarrow> db_error + (64 word) Rows"

text \<open>
  The loop \<^verbatim>\<open>for rows.Next() { if err := rows.Scan(&v); err != nil { continue }; vs = append(vs, v) }\<close>.
\<close>

fun scan_rows :: "'a list \<Rightarrow> 'a option list \<Rightarrow> 'a list" where
  "scan_rows acc [] = acc"
| "scan_rows acc (None # rs) = scan_rows acc rs"
| "scan_rows acc (Some v # rs) = scan_rows (acc @ [v]) rs"

text \<open>
  \<^verbatim>\<open>getTables\<close>: an error of the query is returned at once; otherwise the rows are
  scanned and \<^verbatim>\<open>rows.Err()\<close> is returned with them. Both callers look at the
  error first and drop the rows when it is set.
\<close>

definition getTables :: "DB \<Rightarrow> state \<Rightarrow> (db_error + string list) \<times> state" where
  "getTables db s =
     (let q = ''SHOW tables'';
          s' = s\<lparr>issued := issued s @ [q]\<rparr>
      in case QueryContext_string db q of
           Inl err \<Rightarrow> (Inl err, s')
         | Inr rows \<Rightarrow>
             (let tables = scan_rows [] (scans rows)
              in case Err rows of
                   Some err \<Rightarrow> (Inl err, s')
                 | None \<Rightarrow> (Inr tables, s')))"

text \<open>\<^verbatim>\<open>fmt.Sprintf("SELECT id FROM `%s`", table)\<close>: the name is spliced in as it is.\<close>

definition recordIDsQuery :: "string \<Rightarrow> string" where
  "recordIDsQuery table = ''SELECT id FROM `'' @ table @ ''`''"

definition getRecordIDs :: "DB \<Rightarrow> string \<Rightarrow> state \<Rightarrow> (db_error + (64 word) list) \<times> state" where
  "getRecordIDs db table s =
     (let q = recordIDsQuery table;
          s' = s\<lparr>issued := issued s @ [q]\<rparr>
      in case QueryContext_int64 db q of
           Inl err \<Rightarrow> (Inl err, s')
         | Inr rows \<Rightarrow>
             (let ids = scan_rows [] (scans rows)
              in case Err rows of
                   Some err \<Rightarrow> (Inl err, s')
                 | None \<Rightarrow> (Inr ids, s')))"

subsection \<open>Library functions the operations call\<close>

text \<open>
  \<^verbatim>\<open>fmt.Sprintf("%d", id)\<close> for an \<^verbatim>\<open>int64\<close>: the decimal digits of the magnitude,
  most significant first, after a minus sign when the value is negative.
\<close>

definition digit_char :: "nat \<Rightarrow> char" where
  "digit_char d = char_of (48 + d)"

fun decimal :: "nat \<Rightarrow> string" where
  "decimal n = (if n < 10 then [digit_char n] else decimal (n div 10) @ [digit_char (n mod 10)])"

declare decimal.simps [simp del]

definition Sprintf_d :: "64 word \<Rightarrow> string" where
  "Sprintf_d w = (if sint w < 0 then CHR ''-'' # decimal (nat (- sint w)) else decimal (nat (sint w)))"

text \<open>The value a string of decimal digits denotes; used to state what \<^const>\<open>decimal\<close> renders.\<close>

fun decimal_value :: "nat \<Rightarrow> string \<Rightarrow> nat" where
  "decimal_value acc [] = acc"
| "decimal_value acc (c # cs) = decimal_value (10 * acc + (of_char c - 48)) cs"

text \<open>
  \<^verbatim>\<open>filepath.Join\<close> of two elements on a slash-separated system: empty leading
  elements are dropped, the rest is joined with a slash and passed to
  \<^verbatim>\<open>filepath.Clean\<close>; with no element left the result is empty. \<^verbatim>\<open>Clean\<close> drops
  empty and \<^verbatim>\<open>.\<close> elements, cancels a \<^verbatim>\<open>..\<close> against the element before it
  when that is not itself \<^verbatim>\<open>..\<close>, drops a \<^verbatim>\<open>..\<close> at the start of a rooted path and
  keeps it at the start of a relative one, and turns an empty result into \<^verbatim>\<open>.\<close>.
\<close>

fun split_sep :: "string \<Rightarrow> string list" where
  "split_sep [] = [[]]"
| "split_sep (c # cs) =
     (if c = CHR ''/'' then [] # split_sep cs
      else (case split_sep cs of [] \<Rightarrow> [[c]] | e # es \<Rightarrow> (c # e) # es))"

fun join_sep :: "string list \<Rightarrow> string" where
  "join_sep [] = []"
| "join_sep [e] = e"
| "join_sep (e # es) = e @ CHR ''/'' # join_sep es"

fun Clean_elems :: "bool \<Rightarrow> string list \<Rightarrow> string list \<Rightarrow> string list" where
  "Clean_elems rooted out [] = out"
| "Clean_elems rooted out (e # es) =
     (if e = [] \<or> e = ''.'' then Clean_elems rooted out es
      else if e = ''..'' then
        (if out \<noteq> [] \<and> last out \<noteq> ''..'' then Clean_elems rooted (butlast out) es
         else if \<not> rooted then Clean_elems rooted (out @ [''..'']) es
         else Clean_elems rooted out es)
      else Clean_elems rooted (out @ [e]) es)"

definition render_path :: "bool \<Rightarrow> string list \<Rightarrow> string" where
  "render_path rooted out =
     (if rooted then CHR ''/'' # join_sep out else if out = [] then ''.'' else join_sep out)"

definition Clean :: "string \<Rightarrow> string" where
  "Clean p =
     (if p = [] then ''.''
      else let rooted = (hd p = CHR ''/'')
           in render_path rooted (Clean_elems rooted [] (split_sep p)))"

definition Join :: "string \<Rightarrow> string \<Rightarrow> string" where
  "Join a b =
     (if a \<noteq> [] then Clean (a @ CHR ''/'' # b)
      else if b \<noteq> [] then Clean b
      else [])"

subsection \<open>The node operations\<close>

text \<open>
  \<^verbatim>\<open>m.Range(func(k, v) bool { m.Delete(k); return true })\<close>: every pair of the map
  is visited and its key deleted.
\<close>

definition Range_Delete :: "'v syncMap \<Rightarrow> 'v syncMap" where
  "Range_Delete m = fold (\<lambda>(k, v) acc. AList.delete k acc) m m"

text \<open>
  \<^verbatim>\<open>Opendir\<close> returns \<^verbatim>\<open>fs.OK\<close>. (With \<^verbatim>\<open>debug\<close> set each operation also prints
  one line to standard output, which is not part of the state.)
\<close>

definition Opendir :: "MySQLRoot \<Rightarrow> state \<Rightarrow> (error + unit) \<times> state" where
  "Opendir r s = (Inr (), s)"

text \<open>The tail of \<^verbatim>\<open>Readdir\<close>: one \<^verbatim>\<open>fuse.DirEntry\<close> per element, all with one mode.\<close>

definition dir_list :: "32 word \<Rightarrow> string list \<Rightarrow> DirEntry list" where
  "dir_list mode elements = foldl (\<lambda>list ele. list @ [\<lparr>Name = ele, Mode = mode, Ino = 0\<rparr>]) [] elements"

text \<open>
  The three loops of \<^verbatim>\<open>Readdir\<close> over its elements:
  \<^verbatim>\<open>for _, ele := range elements { tableMap.Store(ele, &sync.Map{}) }\<close>,
  \<^verbatim>\<open>for _, id := range ids { elements = append(elements, fmt.Sprintf("%d.sql", id)) }\<close>
  and
  \<^verbatim>\<open>for _, ele := range elements { p := filepath.Join(path, ele); m.Store(p, &FileIndex{path: p, name: ele}) }\<close>.
\<close>

definition store_tables :: "string list \<Rightarrow> FileIndex syncMap syncMap \<Rightarrow> FileIndex syncMap syncMap" where
  "store_tables elements tm = foldl (\<lambda>tm' ele. AList.update ele [] tm') tm elements"

definition render_ids :: "64 word list \<Rightarrow> string list" where
  "render_ids ids = foldl (\<lambda>elements id. elements @ [Sprintf_d id @ ''.sql'']) [] ids"

definition store_entries :: "string \<Rightarrow> string list \<Rightarrow> FileIndex syncMap \<Rightarrow> FileIndex syncMap" where
  "store_entries p elements m =
     foldl (\<lambda>m' ele. (let fp = Join p ele in AList.update fp \<lparr>path = fp, name = ele\<rparr> m')) m elements"

text \<open>
  \<^verbatim>\<open>Readdir\<close>. At the root the tables are fetched, every key of \<^verbatim>\<open>tableMap\<close> is
  deleted and each table is stored with a new empty map. Elsewhere the record
  identifiers of the table named by the path are fetched and rendered, the map
  stored under the path is loaded, asserted to be a \<^verbatim>\<open>*sync.Map\<close> (the assertion
  panics on the nil interface that a failed \<^verbatim>\<open>Load\<close> returns; the source notes
  \<^verbatim>\<open>// if not found, panic directly\<close>), emptied and refilled.
\<close>

definition Readdir :: "DB \<Rightarrow> MySQLRoot \<Rightarrow> state \<Rightarrow> (error + DirEntry list) \<times> state" where
  "Readdir db r s =
     (let p = Path r in
      if p = [] then
        (case getTables db s of
           (Inl err, s1) \<Rightarrow> (Inl ENOENT, s1)
         | (Inr elements, s1) \<Rightarrow>
             (Inr (dir_list dirMode elements),
              s1\<lparr>tableMap := store_tables elements (Range_Delete (tableMap s1))\<rparr>))
      else
        (case getRecordIDs db p s of
           (Inl err, s1) \<Rightarrow> (Inl ENOENT, s1)
         | (Inr ids, s1) \<Rightarrow>
             (let elements = render_ids ids
              in case map_of (tableMap s1) p of
                   None \<Rightarrow> (Inl Panic, s1)
                 | Some m \<Rightarrow>
                     (Inr (dir_list fileMode elements),
                      s1\<lparr>tableMap :=
                           AList.update p (store_entries p elements (Range_Delete m)) (tableMap s1)\<rparr>))))"

definition NewInode :: "string \<Rightarrow> bool \<Rightarrow> 32 word \<Rightarrow> Inode" where
  "NewInode d dbg mode =
     \<lparr>StableAttr_Mode = (if mode AND S_IFMT = 0 then S_IFREG else mode AND S_IFMT),
      ops_dsn = d, ops_debug = dbg\<rparr>"

text \<open>
  \<^verbatim>\<open>Lookup\<close>. At the root the name itself is loaded from \<^verbatim>\<open>tableMap\<close>; elsewhere
  the map of the current directory is loaded and the joined child path is looked up
  in it. The database is not used and nothing is stored.
\<close>

definition Lookup :: "MySQLRoot \<Rightarrow> string \<Rightarrow> state \<Rightarrow> (error + Inode) \<times> state" where
  "Lookup r nm s =
     (let currentDir = Path r;
          childPath = Join currentDir nm;
          child = (\<lambda>mode. NewInode (dsn r) (debug r) mode)
      in if currentDir = [] then
           (case map_of (tableMap s) nm of
              None \<Rightarrow> (Inl ENOENT, s)
            | Some v \<Rightarrow> (Inr (child dirMode), s))
         else
           (case map_of (tableMap s) currentDir of
              None \<Rightarrow> (Inl ENOENT, s)
            | Some m \<Rightarrow>
                (case map_of m childPath of
                   None \<Rightarrow> (Inl ENOENT, s)
                 | Some fi \<Rightarrow> (Inr (child fileMode), s))))"

subsection \<open>Requests and runs\<close>

text \<open>
  The host dispatches requests to nodes. A run serves a sequence of requests one
  after another, each on the state its predecessor left; a panic ends the
  process, so nothing after it is executed. Requests served concurrently are the
  subject of a later section; a run is the execution in which the steps of each
  request come in one piece (\<open>run_is_a_schedule\<close>).
\<close>

datatype op = Op_Opendir MySQLRoot | Op_Readdir DB MySQLRoot | Op_Lookup MySQLRoot string

datatype reply = Opened "error + unit" | Listed "error + DirEntry list" | Found "error + Inode"

fun step :: "op \<Rightarrow> state \<Rightarrow> reply \<times> state" where
  "step (Op_Opendir r) s = (case Opendir r s of (x, s') \<Rightarrow> (Opened x, s'))"
| "step (Op_Readdir db r) s = (case Readdir db r s of (x, s') \<Rightarrow> (Listed x, s'))"
| "step (Op_Lookup r nm) s = (case Lookup r nm s of (x, s') \<Rightarrow> (Found x, s'))"

fun faulted :: "reply \<Rightarrow> bool" where
  "faulted (Opened x) = (x = Inl Panic)"
| "faulted (Listed x) = (x = Inl Panic)"
| "faulted (Found x) = (x = Inl Panic)"

fun run :: "op list \<Rightarrow> state \<Rightarrow> reply list \<times> state" where
  "run [] s = ([], s)"
| "run (x # xs) s =
     (case step x s of (rep, s') \<Rightarrow>
        if faulted rep then ([rep], s')
        else (case run xs s' of (reps, s'') \<Rightarrow> (rep # reps, s'')))"

text \<open>The states the program can be in: those a run from the empty index ends in.\<close>

inductive reachable :: "state \<Rightarrow> bool" where
  reachable_init: "reachable init"
| reachable_step: "reachable s \<Longrightarrow> reachable (snd (step x s))"

subsection \<open>Reading the index\<close>

text \<open>
  The collection set is the set of keys of \<^verbatim>\<open>tableMap\<close>; the entry set of a
  collection is the set of \<^verbatim>\<open>FileIndex\<close> values of its map, read by name or by
  path. A lookup hits when it returns a node.
\<close>

definition collections :: "state \<Rightarrow> string set" where
  "collections s = fst ` set (tableMap s)"

definition entry_set :: "state \<Rightarrow> string \<Rightarrow> FileIndex set" where
  "entry_set s t = (case map_of (tableMap s) t of None \<Rightarrow> {} | Some m \<Rightarrow> ran (map_of m))"

definition entry_names :: "state \<Rightarrow> string \<Rightarrow> string set" where
  "entry_names s t = name ` entry_set s t"

definition hit :: "(error + Inode) \<times> state \<Rightarrow> bool" where
  "hit res = (case fst res of Inl e \<Rightarrow> False | Inr child \<Rightarrow> True)"

definition miss :: "(error + Inode) \<times> state \<Rightarrow> bool" where
  "miss res = (fst res = Inl ENOENT)"

text \<open>
  A single path component: not empty, free of slashes, and neither \<^verbatim>\<open>.\<close> nor
  \<^verbatim>\<open>..\<close>. Every rendered entry name is one. The names the host passes to
  \<^verbatim>\<open>Lookup\<close> are file names, hence free of slashes.
\<close>

definition path_component :: "string \<Rightarrow> bool" where
  "path_component x = (x \<noteq> [] \<and> x \<noteq> ''.'' \<and> x \<noteq> ''..'' \<and> CHR ''/'' \<notin> set x)"

text \<open>The elements \<^const>\<open>Clean_elems\<close> keeps: not empty and free of slashes.\<close>

definition elems_ok :: "string list \<Rightarrow> bool" where
  "elems_ok out = list_all (\<lambda>e. e \<noteq> [] \<and> CHR ''/'' \<notin> set e) out"

text \<open>
  What every stored entry satisfies: it is stored under its own path, the path is
  the join of its collection and its name, and the name is a single component.
\<close>

definition entry_ok :: "string \<Rightarrow> string \<times> FileIndex \<Rightarrow> bool" where
  "entry_ok t e = (path (snd e) = fst e \<and> fst e = Join t (name (snd e)) \<and> path_component (name (snd e)))"

definition index_inv :: "state \<Rightarrow> bool" where
  "index_inv s = list_all (\<lambda>(t, m). list_all (entry_ok t) m) (tableMap s)"

subsection \<open>Histories\<close>

text \<open>
  The state after a sequence of requests served one after another from the empty
  index, and what a listing fetches from its database: the table names at the
  root, the rendered names of the identifiers in a collection.
\<close>

definition state_after :: "op list \<Rightarrow> state" where
  "state_after xs = foldl (\<lambda>s x. snd (step x s)) init xs"

definition fetched_tables :: "DB \<Rightarrow> db_error + string list" where
  "fetched_tables db = fst (getTables db init)"

definition fetched_names :: "DB \<Rightarrow> string \<Rightarrow> db_error + string list" where
  "fetched_names db t = (case fst (getRecordIDs db t init) of Inl e \<Rightarrow> Inl e | Inr ids \<Rightarrow> Inr (render_ids ids))"

text \<open>
  The sets a history has most recently rebuilt, read off the requests alone, the
  most recent first. The collection set is the one fetched by the latest root
  listing whose query succeeded. For the entry set of a collection there are two
  readings. In \<open>listed_entries\<close> only a listing of the collection itself rebuilds
  it, as the specification words it. In \<open>rebuilt_entries\<close> a root listing whose
  query succeeded rebuilds it too, to the empty set.
\<close>

fun rebuilt_collections :: "op list \<Rightarrow> string set" where
  "rebuilt_collections [] = {}"
| "rebuilt_collections (Op_Readdir db r # older) =
     (if Path r = [] then
        (case fetched_tables db of Inl e \<Rightarrow> rebuilt_collections older | Inr C \<Rightarrow> set C)
      else rebuilt_collections older)"
| "rebuilt_collections (x # older) = rebuilt_collections older"

fun listed_entries :: "string \<Rightarrow> op list \<Rightarrow> string set" where
  "listed_entries t [] = {}"
| "listed_entries t (Op_Readdir db r # older) =
     (if Path r \<noteq> [] \<and> Path r = t \<and> t \<in> rebuilt_collections older then
        (case fetched_names db t of Inl e \<Rightarrow> listed_entries t older | Inr es \<Rightarrow> set es)
      else listed_entries t older)"
| "listed_entries t (x # older) = listed_entries t older"

fun rebuilt_entries :: "string \<Rightarrow> op list \<Rightarrow> string set" where
  "rebuilt_entries t [] = {}"
| "rebuilt_entries t (Op_Readdir db r # older) =
     (if Path r = [] then
        (case fetched_tables db of Inl e \<Rightarrow> rebuilt_entries t older | Inr C \<Rightarrow> {})
      else if Path r = t \<and> t \<in> rebuilt_collections older then
        (case fetched_names db t of Inl e \<Rightarrow> rebuilt_entries t older | Inr es \<Rightarrow> set es)
      else rebuilt_entries t older)"
| "rebuilt_entries t (x # older) = rebuilt_entries t older"

subsection \<open>Concurrent requests\<close>

text \<open>
  The host serves every request on a thread of its own, so the operations of
  several requests interleave. The unit of interleaving is one call on a
  \<^verbatim>\<open>sync.Map\<close> (\<^verbatim>\<open>Load\<close>, \<^verbatim>\<open>Store\<close>, \<^verbatim>\<open>Delete\<close>, one visit of \<^verbatim>\<open>Range\<close>) or one
  query; each is atomic, and what a thread does between two of them touches its
  own variables only. Here the inner maps are objects of a store and \<^verbatim>\<open>tableMap\<close>
  holds their addresses, since a thread keeps working on the map it has loaded
  while another thread may store a new one under the same key.
\<close>

type_synonym addr = nat

record memory =
  index :: "addr syncMap"
  maps :: "addr \<Rightarrow> FileIndex syncMap"
  fresh :: addr
  sent :: "string list"

definition mem_state :: "memory \<Rightarrow> state" where
  "mem_state sh = \<lparr>tableMap = map (\<lambda>(k, a). (k, maps sh a)) (index sh), issued = sent sh\<rparr>"

text \<open>
  Where a thread stands in its operation. A listing at the root has fetched its
  elements, then ranges over \<^verbatim>\<open>tableMap\<close> (keys still to come, keys visited), is
  inside the callback about to delete the visited key, then stores the elements
  still to store. A listing elsewhere has fetched and rendered its elements, then
  has loaded its map, and ranges over it and refills it in the same way. A lookup
  elsewhere has loaded the map of its directory.
\<close>

datatype pc =
    Start
  | Root_Fetched "string list"
  | Root_Range "string list" "string list" "string list"
  | Root_Delete "string list" "string list" "string list" string
  | Root_Store "string list" "string list"
  | Coll_Fetched "string list"
  | Coll_Loaded addr "string list"
  | Coll_Range addr "string list" "string list" "string list"
  | Coll_Delete addr "string list" "string list" "string list" string
  | Coll_Store addr "string list" "string list"
  | Look_Loaded addr
  | Done reply

text \<open>
  One turn of \<^verbatim>\<open>Range\<close>, as \<^verbatim>\<open>sync.Map\<close> documents it: no key is visited twice;
  the keys that were in the map when the call began come up in any order, and one
  that is gone at its turn is passed over; a key stored since may be visited or
  not; the call can end once the keys of the beginning have all come up. The
  scheduler picks the key, or picks none to end the call.
\<close>

datatype visit = Callback string "string list" "string list" | Skip "string list" | Finish | Disabled

definition range_next :: "string option \<Rightarrow> string list \<Rightarrow> string list \<Rightarrow> 'v syncMap \<Rightarrow> visit" where
  "range_next pick todo seen m =
     (case pick of
        None \<Rightarrow> (if todo = [] then Finish else Disabled)
      | Some k \<Rightarrow>
          if k \<in> set todo then
            (if map_of m k = None then Skip (removeAll k todo)
             else Callback k (removeAll k todo) (k # seen))
          else if k \<notin> set seen \<and> map_of m k \<noteq> None then Callback k todo (k # seen)
          else Disabled)"

text \<open>
  One atomic step of the thread serving a request. A step that is not enabled
  leaves everything as it is.
\<close>

fun thread_step :: "string option \<Rightarrow> op \<Rightarrow> pc \<Rightarrow> memory \<Rightarrow> pc \<times> memory" where
  "thread_step pick (Op_Opendir r) Start sh = (Done (Opened (Inr ())), sh)"
| "thread_step pick (Op_Lookup r nm) Start sh =
     (if Path r = [] then
        (case map_of (index sh) nm of
           None \<Rightarrow> (Done (Found (Inl ENOENT)), sh)
         | Some v \<Rightarrow> (Done (Found (Inr (NewInode (dsn r) (debug r) dirMode))), sh))
      else
        (case map_of (index sh) (Path r) of
           None \<Rightarrow> (Done (Found (Inl ENOENT)), sh)
         | Some a \<Rightarrow> (Look_Loaded a, sh)))"
| "thread_step pick (Op_Lookup r nm) (Look_Loaded a) sh =
     (case map_of (maps sh a) (Join (Path r) nm) of
        None \<Rightarrow> (Done (Found (Inl ENOENT)), sh)
      | Some fi \<Rightarrow> (Done (Found (Inr (NewInode (dsn r) (debug r) fileMode))), sh))"
| "thread_step pick (Op_Readdir db r) Start sh =
     (if Path r = [] then
        (case getTables db (mem_state sh) of
           (Inl err, s1) \<Rightarrow> (Done (Listed (Inl ENOENT)), sh\<lparr>sent := issued s1\<rparr>)
         | (Inr elements, s1) \<Rightarrow> (Root_Fetched elements, sh\<lparr>sent := issued s1\<rparr>))
      else
        (case getRecordIDs db (Path r) (mem_state sh) of
           (Inl err, s1) \<Rightarrow> (Done (Listed (Inl ENOENT)), sh\<lparr>sent := issued s1\<rparr>)
         | (Inr ids, s1) \<Rightarrow> (Coll_Fetched (render_ids ids), sh\<lparr>sent := issued s1\<rparr>)))"
| "thread_step pick (Op_Readdir db r) (Root_Fetched els) sh =
     (Root_Range els (map fst (index sh)) [], sh)"
| "thread_step pick (Op_Readdir db r) (Root_Range els todo seen) sh =
     (case range_next pick todo seen (index sh) of
        Callback k todo' seen' \<Rightarrow> (Root_Delete els todo' seen' k, sh)
      | Skip todo' \<Rightarrow> (Root_Range els todo' seen, sh)
      | Finish \<Rightarrow> (Root_Store els els, sh)
      | Disabled \<Rightarrow> (Root_Range els todo seen, sh))"
| "thread_step pick (Op_Readdir db r) (Root_Delete els todo seen k) sh =
     (Root_Range els todo seen, sh\<lparr>index := AList.delete k (index sh)\<rparr>)"
| "thread_step pick (Op_Readdir db r) (Root_Store els []) sh =
     (Done (Listed (Inr (dir_list dirMode els))), sh)"
| "thread_step pick (Op_Readdir db r) (Root_Store els (ele # rest)) sh =
     (Root_Store els rest,
      sh\<lparr>index := AList.update ele (fresh sh) (index sh),
         maps := (maps sh)(fresh sh := []),
         fresh := Suc (fresh sh)\<rparr>)"
| "thread_step pick (Op_Readdir db r) (Coll_Fetched els) sh =
     (case map_of (index sh) (Path r) of
        None \<Rightarrow> (Done (Listed (Inl Panic)), sh)
      | Some a \<Rightarrow> (Coll_Loaded a els, sh))"
| "thread_step pick (Op_Readdir db r) (Coll_Loaded a els) sh =
     (Coll_Range a els (map fst (maps sh a)) [], sh)"
| "thread_step pick (Op_Readdir db r) (Coll_Range a els todo seen) sh =
     (case range_next pick todo seen (maps sh a) of
        Callback k todo' seen' \<Rightarrow> (Coll_Delete a els todo' seen' k, sh)
      | Skip todo' \<Rightarrow> (Coll_Range a els todo' seen, sh)
      | Finish \<Rightarrow> (Coll_Store a els els, sh)
      | Disabled \<Rightarrow> (Coll_Range a els todo seen, sh))"
| "thread_step pick (Op_Readdir db r) (Coll_Delete a els todo seen k) sh =
     (Coll_Range a els todo seen, sh\<lparr>maps := (maps sh)(a := AList.delete k (maps sh a))\<rparr>)"
| "thread_step pick (Op_Readdir db r) (Coll_Store a els []) sh =
     (Done (Listed (Inr (dir_list fileMode els))), sh)"
| "thread_step pick (Op_Readdir db r) (Coll_Store a els (ele # rest)) sh =
     (Coll_Store a els rest,
      sh\<lparr>maps := (maps sh)(a := (let fp = Join (Path r) ele
                                   in AList.update fp \<lparr>path = fp, name = ele\<rparr> (maps sh a)))\<rparr>)"
| "thread_step pick x p sh = (p, sh)"

text \<open>
  The threads of the requests with the memory they share. A panic of one thread
  ends the process: after it no thread takes a step. A schedule names, move by
  move, the thread that takes the next step and the pick it makes.
\<close>

record config =
  threads :: "(op \<times> pc) list"
  mem :: memory

definition fault_pc :: "pc \<Rightarrow> bool" where
  "fault_pc p = (case p of Done rep \<Rightarrow> faulted rep | _ \<Rightarrow> False)"

definition crashed :: "config \<Rightarrow> bool" where
  "crashed c = list_ex (\<lambda>t. fault_pc (snd t)) (threads c)"

definition sched_step :: "nat \<times> string option \<Rightarrow> config \<Rightarrow> config" where
  "sched_step mv c =
     (if crashed c \<or> length (threads c) \<le> fst mv then c
      else (case thread_step (snd mv) (fst (threads c ! fst mv)) (snd (threads c ! fst mv)) (mem c) of
              (p', sh') \<Rightarrow> \<lparr>threads = (threads c)[fst mv := (fst (threads c ! fst mv), p')], mem = sh'\<rparr>))"

definition execute :: "(nat \<times> string option) list \<Rightarrow> config \<Rightarrow> config" where
  "execute sched c = foldl (\<lambda>c' mv. sched_step mv c') c sched"

definition launch :: "op list \<Rightarrow> config" where
  "launch xs =
     \<lparr>threads = map (\<lambda>x. (x, Start)) xs,
      mem = \<lparr>index = [], maps = (\<lambda>a. []), fresh = 0, sent = []\<rparr>\<rparr>"

text \<open>
  What holds of every thread at every moment: it stands at a point of the
  operation it serves, on the branch its path selects; a listing that has
  fetched its elements has them from a query that succeeded; a lookup and a
  listing at the root have no reply that is a fault.
\<close>

fun thread_ok :: "op \<times> pc \<Rightarrow> bool" where
  "thread_ok (Op_Opendir r, p) = (p = Start \<or> p = Done (Opened (Inr ())))"
| "thread_ok (Op_Lookup r nm, p) =
     (case p of
        Start \<Rightarrow> True
      | Look_Loaded a \<Rightarrow> Path r \<noteq> []
      | Done (Found y) \<Rightarrow> y \<noteq> Inl Panic
      | _ \<Rightarrow> False)"
| "thread_ok (Op_Readdir db r, p) =
     (case p of
        Start \<Rightarrow> True
      | Root_Fetched els \<Rightarrow> Path r = []
      | Root_Range els todo seen \<Rightarrow> Path r = []
      | Root_Delete els todo seen k \<Rightarrow> Path r = []
      | Root_Store els rest \<Rightarrow> Path r = []
      | Coll_Fetched els \<Rightarrow> Path r \<noteq> [] \<and> fetched_names db (Path r) = Inr els
      | Coll_Loaded a els \<Rightarrow> Path r \<noteq> []
      | Coll_Range a els todo seen \<Rightarrow> Path r \<noteq> []
      | Coll_Delete a els todo seen k \<Rightarrow> Path r \<noteq> []
      | Coll_Store a els rest \<Rightarrow> Path r \<noteq> []
      | Done (Listed y) \<Rightarrow> y = Inl Panic \<longrightarrow> Path r \<noteq> []
      | _ \<Rightarrow> False)"

text \<open>
  A request served alone: only its own thread takes steps, with the picks given.
  The memory is well formed when no key and no address occurs twice in the index
  and every address in it has been allocated. The three predicates after it say,
  for a thread that started on the memory \<open>sh0\<close> and has moved alone since, how
  the memory it has reached relates to \<open>sh0\<close> at each point of its operation; at
  the end it is the memory, and the reply, of the operation taken as a whole.
\<close>

definition solo :: "string option list \<Rightarrow> op \<Rightarrow> pc \<times> memory \<Rightarrow> pc \<times> memory" where
  "solo picks x ps = foldl (\<lambda>ps' k. thread_step k x (fst ps') (snd ps')) ps picks"

definition mem_ok :: "memory \<Rightarrow> bool" where
  "mem_ok sh = (distinct (map fst (index sh)) \<and> distinct (map snd (index sh))
                \<and> list_all (\<lambda>e. snd e < fresh sh) (index sh))"

definition root_inv :: "memory \<Rightarrow> DB \<Rightarrow> MySQLRoot \<Rightarrow> pc \<Rightarrow> memory \<Rightarrow> bool" where
  "root_inv sh0 db r p sh =
     (case p of
        Start \<Rightarrow> sh = sh0
      | Root_Fetched els \<Rightarrow>
          fst (getTables db (mem_state sh0)) = Inr els \<and> sh = sh0\<lparr>sent := sent sh0 @ [''SHOW tables'']\<rparr>
      | Root_Range els todo seen \<Rightarrow>
          fst (getTables db (mem_state sh0)) = Inr els \<and> sent sh = sent sh0 @ [''SHOW tables'']
          \<and> mem_ok sh \<and> fst ` set (index sh) \<subseteq> set todo
      | Root_Delete els todo seen k \<Rightarrow>
          fst (getTables db (mem_state sh0)) = Inr els \<and> sent sh = sent sh0 @ [''SHOW tables'']
          \<and> mem_ok sh \<and> fst ` set (index sh) \<subseteq> insert k (set todo)
      | Root_Store els rest \<Rightarrow>
          fst (getTables db (mem_state sh0)) = Inr els \<and> sent sh = sent sh0 @ [''SHOW tables'']
          \<and> mem_ok sh
          \<and> (\<exists>stored. els = stored @ rest \<and> tableMap (mem_state sh) = store_tables stored [])
      | Done rep \<Rightarrow> (rep, mem_state sh) = step (Op_Readdir db r) (mem_state sh0) \<and> mem_ok sh
      | _ \<Rightarrow> False)"

definition coll_inv :: "memory \<Rightarrow> DB \<Rightarrow> MySQLRoot \<Rightarrow> pc \<Rightarrow> memory \<Rightarrow> bool" where
  "coll_inv sh0 db r p sh =
     (case p of
        Start \<Rightarrow> sh = sh0
      | Coll_Fetched els \<Rightarrow>
          fetched_names db (Path r) = Inr els
          \<and> sh = sh0\<lparr>sent := sent sh0 @ [recordIDsQuery (Path r)]\<rparr>
      | Coll_Loaded a els \<Rightarrow>
          fetched_names db (Path r) = Inr els \<and> map_of (index sh0) (Path r) = Some a
          \<and> sh = sh0\<lparr>sent := sent sh0 @ [recordIDsQuery (Path r)]\<rparr>
      | Coll_Range a els todo seen \<Rightarrow>
          fetched_names db (Path r) = Inr els \<and> map_of (index sh0) (Path r) = Some a
          \<and> (\<exists>m. sh = sh0\<lparr>sent := sent sh0 @ [recordIDsQuery (Path r)], maps := (maps sh0)(a := m)\<rparr>
                 \<and> fst ` set m \<subseteq> set todo)
      | Coll_Delete a els todo seen k \<Rightarrow>
          fetched_names db (Path r) = Inr els \<and> map_of (index sh0) (Path r) = Some a
          \<and> (\<exists>m. sh = sh0\<lparr>sent := sent sh0 @ [recordIDsQuery (Path r)], maps := (maps sh0)(a := m)\<rparr>
                 \<and> fst ` set m \<subseteq> insert k (set todo))
      | Coll_Store a els rest \<Rightarrow>
          fetched_names db (Path r) = Inr els \<and> map_of (index sh0) (Path r) = Some a
          \<and> (\<exists>stored. els = stored @ rest
                 \<and> sh = sh0\<lparr>sent := sent sh0 @ [recordIDsQuery (Path r)],
                           maps := (maps sh0)(a := store_entries (Path r) stored [])\<rparr>)
      | Done rep \<Rightarrow> (rep, mem_state sh) = step (Op_Readdir db r) (mem_state sh0) \<and> mem_ok sh
      | _ \<Rightarrow> False)"

definition solo_inv :: "memory \<Rightarrow> op \<Rightarrow> pc \<Rightarrow> memory \<Rightarrow> bool" where
  "solo_inv sh0 x p sh =
     (case x of
        Op_Opendir r \<Rightarrow> sh = sh0 \<and> (p = Start \<or> p = Done (Opened (Inr ())))
      | Op_Lookup r nm \<Rightarrow>
          sh = sh0
          \<and> (case p of
                Start \<Rightarrow> True
              | Look_Loaded a \<Rightarrow> Path r \<noteq> [] \<and> map_of (index sh0) (Path r) = Some a
              | Done rep \<Rightarrow> rep = Found (fst (Lookup r nm (mem_state sh0)))
              | _ \<Rightarrow> False)
      | Op_Readdir db r \<Rightarrow>
          if Path r = [] then root_inv sh0 db r p sh else coll_inv sh0 db r p sh)"

subsection \<open>A sample mount\<close>

text \<open>
  The scenario of the specification: a database with the tables \<^verbatim>\<open>users\<close> and
  \<^verbatim>\<open>orders\<close>, where \<^verbatim>\<open>users\<close> holds the identifiers 1, 2 and 3; the same
  database after \<^verbatim>\<open>users\<close> was dropped; a database whose connection is down;
  the root node and the node of \<^verbatim>\<open>users\<close>; and the states after a root listing
  and after a following listing of \<^verbatim>\<open>users\<close>.
\<close>

definition db_shop :: DB where
  "db_shop =
     \<lparr>QueryContext_string = (\<lambda>q. if q = ''SHOW tables''
          then Inr \<lparr>scans = [Some ''users'', Some ''orders''], Err = None\<rparr>
          else Inl (ErrOther ''syntax'')),
      QueryContext_int64 = (\<lambda>q. if q = ''SELECT id FROM `users`''
          then Inr \<lparr>scans = [Some 1, Some 2, Some 3], Err = None\<rparr>
          else if q = ''SELECT id FROM `orders`'' then Inr \<lparr>scans = [], Err = None\<rparr>
          else Inl ErrNoSuchTable)\<rparr>"

definition db_dropped :: DB where
  "db_dropped =
     \<lparr>QueryContext_string = (\<lambda>q. if q = ''SHOW tables''
          then Inr \<lparr>scans = [Some ''orders''], Err = None\<rparr>
          else Inl (ErrOther ''syntax'')),
      QueryContext_int64 = (\<lambda>q. if q = ''SELECT id FROM `orders`''
          then Inr \<lparr>scans = [], Err = None\<rparr>
          else Inl ErrNoSuchTable)\<rparr>"

definition db_down :: DB where
  "db_down = \<lparr>QueryContext_string = (\<lambda>q. Inl ErrBadConn), QueryContext_int64 = (\<lambda>q. Inl ErrBadConn)\<rparr>"

definition root_node :: MySQLRoot where
  "root_node = NewMySQLRoot ''fuse@/shop'' False []"

definition users_node :: MySQLRoot where
  "users_node = NewMySQLRoot ''fuse@/shop'' False ''users''"

definition orders_node :: MySQLRoot where
  "orders_node = NewMySQLRoot ''fuse@/shop'' False ''orders''"

definition s_root :: state where
  "s_root = snd (Readdir db_shop root_node init)"

definition s_users :: state where
  "s_users = snd (Readdir db_shop users_node s_root)"

text \<open>
  A database with the tables \<^verbatim>\<open>a\<close> (identifiers 1, 2), \<^verbatim>\<open>b\<close> (identifiers 7, 8)
  and a third table whose name is \<^verbatim>\<open>a` UNION SELECT id FROM `b\<close> (identifier 5),
  a name the server accepts when its backticks are doubled. The server reads a
  backtick-quoted name up to the first backtick that is not doubled, so it answers
  each text below with the rows of the tables that text names.
\<close>

definition db_union :: DB where
  "db_union =
     \<lparr>QueryContext_string = (\<lambda>q. if q = ''SHOW tables''
          then Inr \<lparr>scans = [Some ''a'', Some ''b'', Some ''a` UNION SELECT id FROM `b''], Err = None\<rparr>
          else Inl (ErrOther ''syntax'')),
      QueryContext_int64 = (\<lambda>q.
          if q = ''SELECT id FROM `a`'' then Inr \<lparr>scans = [Some 1, Some 2], Err = None\<rparr>
          else if q = ''SELECT id FROM `b`'' then Inr \<lparr>scans = [Some 7, Some 8], Err = None\<rparr>
          else if q = ''SELECT id FROM `a` UNION SELECT id FROM `b`''
            then Inr \<lparr>scans = [Some 1, Some 2, Some 7, Some 8], Err = None\<rparr>
          else if q = ''SELECT id FROM `a`` UNION SELECT id FROM ``b`''
            then Inr \<lparr>scans = [Some 5], Err = None\<rparr>
          else Inl ErrNoSuchTable)\<rparr>"

definition union_node :: MySQLRoot where
  "union_node = NewMySQLRoot ''fuse@/shop'' False ''a` UNION SELECT id FROM `b''"

text \<open>
  Two executions of concurrent requests on the sample mount. In the first the
  requests are served one after another: a root listing, a lookup of \<^verbatim>\<open>users\<close>,
  a root listing after \<^verbatim>\<open>users\<close> was dropped, and a listing of \<^verbatim>\<open>users\<close> after
  it was created again. In the second, every root listing fetches \<^verbatim>\<open>users\<close>; the
  second root listing has deleted the key and not yet stored it again when the
  listing of \<^verbatim>\<open>users\<close> has fetched its identifiers.
\<close>

definition removal_requests :: "op list" where
  "removal_requests = [Op_Readdir db_shop root_node, Op_Lookup root_node ''users'',
                       Op_Readdir db_dropped root_node, Op_Readdir db_shop users_node]"

definition removal_schedule :: "(nat \<times> string option) list" where
  "removal_schedule =
     [(0, None), (0, None), (0, None), (0, None), (0, None), (0, None),
      (1, None),
      (2, None), (2, None), (2, Some ''users''), (2, None), (2, Some ''orders''), (2, None),
      (2, None), (2, None), (2, None),
      (3, None), (3, None)]"

definition window_requests :: "op list" where
  "window_requests = [Op_Readdir db_shop root_node, Op_Readdir db_shop root_node,
                      Op_Readdir db_shop users_node, Op_Lookup users_node ''2.sql'']"

definition window_schedule :: "(nat \<times> string option) list" where
  "window_schedule =
     [(0, None), (0, None), (0, None), (0, None), (0, None), (0, None),
      (1, None), (1, None), (1, Some ''users''), (1, None),
      (2, None)]"

section \<open>Properties\<close>

subsection \<open>The loops\<close>

lemma scan_rows_eq: "scan_rows acc rs = acc @ List.map_filter id rs"
  by (induction acc rs rule: scan_rows.induct) (simp_all add: List.map_filter_simps)

lemma dir_list_acc:
  "foldl (\<lambda>list ele. list @ [\<lparr>Name = ele, Mode = mode, Ino = 0\<rparr>]) acc es
     = acc @ map (\<lambda>ele. \<lparr>Name = ele, Mode = mode, Ino = 0\<rparr>) es"
  by (induction es arbitrary: acc) simp_all

lemma dir_list_map: "dir_list mode es = map (\<lambda>ele. \<lparr>Name = ele, Mode = mode, Ino = 0\<rparr>) es"
  by (simp add: dir_list_def dir_list_acc)

lemma fold_delete_filter:
  "fold (\<lambda>(k, v) acc. AList.delete k acc) xs m = filter (\<lambda>e. fst e \<notin> fst ` set xs) m"
proof (induction xs arbitrary: m)
  case Nil
  then show ?case by simp
next
  case (Cons x xs)
  obtain k v where x: "x = (k, v)" by (cases x)
  have "filter (\<lambda>e. fst e \<notin> fst ` set xs) (AList.delete k m) = filter (\<lambda>e. fst e \<notin> fst ` set (x # xs)) m"
    unfolding x AList.delete_eq by (induction m) auto
  with Cons show ?case by (simp add: x)
qed

lemma Range_Delete_empty: "Range_Delete m = []"
  by (simp add: Range_Delete_def fold_delete_filter)

lemma render_acc:
  "foldl (\<lambda>es id. es @ [Sprintf_d id @ ''.sql'']) acc ids = acc @ map (\<lambda>id. Sprintf_d id @ ''.sql'') ids"
  by (induction ids arbitrary: acc) simp_all

lemma render_ids_map: "render_ids ids = map (\<lambda>id. Sprintf_d id @ ''.sql'') ids"
  by (simp add: render_ids_def render_acc)

lemma refill_tables_map_of:
  "map_of (foldl (\<lambda>tm ele. AList.update ele [] tm) tm es) k
     = (if k \<in> set es then Some [] else map_of tm k)"
  by (induction es arbitrary: tm) (simp_all add: update_conv')

lemma refill_tables_keys:
  "fst ` set (foldl (\<lambda>tm ele. AList.update ele [] tm) tm es) = fst ` set tm \<union> set es"
  by (induction es arbitrary: tm) (auto simp: dom_update)

lemma store_tables_keys: "fst ` set (store_tables C tm) = fst ` set tm \<union> set C"
  by (simp add: store_tables_def refill_tables_keys)

lemma store_tables_map_of: "map_of (store_tables C tm) k = (if k \<in> set C then Some [] else map_of tm k)"
  by (simp add: store_tables_def refill_tables_map_of)

lemma store_entries_keys: "fst ` set (store_entries p es m) = fst ` set m \<union> Join p ` set es"
  unfolding store_entries_def
  by (induction es arbitrary: m) (auto simp: dom_update Let_def)

lemma list_all_update:
  "list_all P al \<Longrightarrow> P (k, v) \<Longrightarrow> list_all P (AList.update k v al)"
  by (induction al) auto

subsection \<open>Decimal rendering\<close>

lemma of_char_digit: "d < 10 \<Longrightarrow> of_char (digit_char d) = 48 + d"
  by (simp add: digit_char_def)

lemma digit_char_not_slash: "d < 10 \<Longrightarrow> digit_char d \<noteq> CHR ''/''"
proof
  assume "d < 10" "digit_char d = CHR ''/''"
  then have "(of_char (digit_char d) :: nat) = of_char (CHR ''/'')" by simp
  with \<open>d < 10\<close> show False by (simp add: of_char_digit)
qed

lemma decimal_nonempty: "decimal n \<noteq> []"
  by (subst decimal.simps) simp

lemma decimal_no_slash: "CHR ''/'' \<notin> set (decimal n)"
proof (induction n rule: decimal.induct)
  case (1 n)
  show ?case
  proof (cases "n < 10")
    case True
    then show ?thesis using digit_char_not_slash [of n] by (subst decimal.simps) auto
  next
    case False
    then show ?thesis using 1 digit_char_not_slash [of "n mod 10"]
      by (subst decimal.simps) auto
  qed
qed

lemma decimal_value_append: "decimal_value acc (xs @ ys) = decimal_value (decimal_value acc xs) ys"
  by (induction xs arbitrary: acc) simp_all

lemma decimal_value_decimal: "decimal_value 0 (decimal n) = n"
proof (induction n rule: decimal.induct)
  case (1 n)
  show ?case
  proof (cases "n < 10")
    case True
    then show ?thesis by (subst decimal.simps) (simp add: of_char_digit)
  next
    case False
    then have "decimal_value 0 (decimal n) = decimal_value (n div 10) [digit_char (n mod 10)]"
      using 1 by (subst decimal.simps) (simp add: decimal_value_append)
    then show ?thesis by (simp add: of_char_digit)
  qed
qed

lemma entry_name_component: "path_component (Sprintf_d w @ ''.sql'')"
proof -
  have "CHR ''/'' \<notin> set (Sprintf_d w)"
    by (simp add: Sprintf_d_def decimal_no_slash)
  moreover have "Sprintf_d w \<noteq> []"
    by (simp add: Sprintf_d_def decimal_nonempty)
  ultimately show ?thesis
    by (cases "Sprintf_d w") (auto simp: path_component_def)
qed

lemma render_ids_components: "list_all path_component (render_ids I)"
  by (simp add: render_ids_map list_all_iff entry_name_component)

subsection \<open>Joining paths\<close>

lemma split_sep_nonempty: "split_sep s \<noteq> []"
  by (induction s) (auto split: list.splits)

lemma split_sep_no_slash: "CHR ''/'' \<notin> set x \<Longrightarrow> split_sep x = [x]"
  by (induction x) auto

lemma split_sep_append: "split_sep (a @ CHR ''/'' # b) = split_sep a @ split_sep b"
  by (induction a) (auto split: list.splits simp: split_sep_nonempty)

lemma split_sep_elems: "list_all (\<lambda>e. CHR ''/'' \<notin> set e) (split_sep s)"
  by (induction s) (auto split: list.splits)

lemma Clean_elems_append:
  "Clean_elems rooted out (es @ fs) = Clean_elems rooted (Clean_elems rooted out es) fs"
  by (induction rooted out es rule: Clean_elems.induct) auto

lemma Clean_elems_component:
  "path_component x \<Longrightarrow> Clean_elems rooted out [x] = out @ [x]"
  by (simp add: path_component_def)

lemma Clean_elems_last:
  assumes "CHR ''/'' \<notin> set x"
  shows "path_component x \<and> Clean_elems rooted out [x] = out @ [x]
       \<or> \<not> path_component x \<and> Clean_elems rooted out [x] \<in> {out, butlast out, out @ [''..'']}"
  using assms by (auto simp: path_component_def)

lemma elems_ok_butlast: "elems_ok out \<Longrightarrow> elems_ok (butlast out)"
  by (auto simp: elems_ok_def list_all_iff dest: in_set_butlastD)

lemma Clean_elems_ok:
  "elems_ok out \<Longrightarrow> list_all (\<lambda>e. CHR ''/'' \<notin> set e) es \<Longrightarrow> elems_ok (Clean_elems rooted out es)"
proof (induction rooted out es rule: Clean_elems.induct)
  case (1 rooted out)
  then show ?case by simp
next
  case (2 rooted out e es)
  have dd: "elems_ok (out @ [''..''])" using "2.prems"(1) by (simp add: elems_ok_def)
  have ee: "e \<noteq> [] \<Longrightarrow> elems_ok (out @ [e])" using "2.prems" by (simp add: elems_ok_def)
  show ?case
    using 2 dd ee elems_ok_butlast [of out] by auto
qed

lemma last_split_join:
  "CHR ''/'' \<notin> set x \<Longrightarrow> last (split_sep (join_sep (out @ [x]))) = x"
proof (induction out)
  case Nil
  then show ?case by (simp add: split_sep_no_slash)
next
  case (Cons e out)
  obtain y ys where ys: "out @ [x] = y # ys" by (cases "out @ [x]") auto
  have "join_sep (e # out @ [x]) = e @ CHR ''/'' # join_sep (out @ [x])"
    by (simp add: ys)
  then show ?case using Cons by (simp add: split_sep_append split_sep_nonempty)
qed

lemma split_join:
  "elems_ok out \<Longrightarrow> out \<noteq> [] \<Longrightarrow> split_sep (join_sep out) = out"
proof (induction out rule: join_sep.induct)
  case 1
  then show ?case by simp
next
  case (2 e)
  then show ?case by (simp add: elems_ok_def split_sep_no_slash)
next
  case (3 e v va)
  then have "split_sep (join_sep (v # va)) = v # va" by (simp add: elems_ok_def)
  moreover have "split_sep e = [e]" using 3 by (simp add: elems_ok_def split_sep_no_slash)
  ultimately show ?case by (simp add: split_sep_append)
qed

lemma Clean_render: "p \<noteq> [] \<Longrightarrow> Clean p = render_path (hd p = CHR ''/'') (Clean_elems (hd p = CHR ''/'') [] (split_sep p))"
  by (simp add: Clean_def Let_def)

lemma split_render:
  "elems_ok out \<Longrightarrow> split_sep (render_path rooted out) =
     (if rooted then [] # (if out = [] then [[]] else out) else if out = [] then [''.''] else out)"
  by (simp add: render_path_def split_join)

lemma render_path_inj:
  assumes "elems_ok out" "elems_ok out'" "out' \<noteq> []" "[''.''] \<noteq> out'" "[[]] \<noteq> out'"
    and "render_path rooted out = render_path rooted out'"
  shows "out = out'"
proof -
  have "split_sep (render_path rooted out) = split_sep (render_path rooted out')"
    using assms(6) by simp
  then show ?thesis
    unfolding split_render [OF assms(1)] split_render [OF assms(2)]
    using assms(3,4,5) by (auto split: if_splits)
qed

lemma Clean_append_component:
  assumes "t \<noteq> []" "path_component x"
  shows "\<exists>out. Clean (t @ CHR ''/'' # x) = join_sep (out @ [x])
           \<or> Clean (t @ CHR ''/'' # x) = CHR ''/'' # join_sep (out @ [x])"
proof -
  have ns: "CHR ''/'' \<notin> set x" using assms(2) by (simp add: path_component_def)
  define rooted where "rooted = (hd (t @ CHR ''/'' # x) = CHR ''/'')"
  define out where "out = Clean_elems rooted [] (split_sep t)"
  have elems: "Clean_elems rooted [] (split_sep (t @ CHR ''/'' # x)) = out @ [x]"
    unfolding split_sep_append split_sep_no_slash [OF ns] Clean_elems_append
      Clean_elems_component [OF assms(2)] out_def ..
  have "Clean (t @ CHR ''/'' # x) =
          (if rooted then CHR ''/'' # join_sep (out @ [x]) else join_sep (out @ [x]))"
    unfolding Clean_def Let_def rooted_def [symmetric] elems by (simp add: render_path_def)
  then show ?thesis by (cases rooted) auto
qed

lemma Join_component_last:
  assumes "t \<noteq> []" "path_component x"
  shows "last (split_sep (Join t x)) = x"
proof -
  have ns: "CHR ''/'' \<notin> set x" using assms(2) by (simp add: path_component_def)
  obtain out where "Join t x = join_sep (out @ [x]) \<or> Join t x = CHR ''/'' # join_sep (out @ [x])"
    using Clean_append_component [OF assms] assms(1) by (auto simp: Join_def)
  then show ?thesis
    using last_split_join [OF ns, of out] by (auto simp: split_sep_nonempty)
qed

lemma Join_component_inj:
  "t \<noteq> [] \<Longrightarrow> path_component x \<Longrightarrow> path_component y \<Longrightarrow> Join t x = Join t y \<Longrightarrow> x = y"
  by (metis Join_component_last)

lemma Join_inj_no_slash:
  assumes t: "t \<noteq> []" and x: "CHR ''/'' \<notin> set x" and e: "path_component e"
    and eq: "Join t x = Join t e"
  shows "x = e"
proof (cases "path_component x")
  case True
  then show ?thesis using Join_component_inj [OF t True e eq] by simp
next
  case False
  define rooted where "rooted = (hd t = CHR ''/'')"
  define out where "out = Clean_elems rooted [] (split_sep t)"
  have ok: "elems_ok out"
    unfolding out_def by (rule Clean_elems_ok) (simp_all add: elems_ok_def split_sep_elems)
  have es: "CHR ''/'' \<notin> set e" "e \<noteq> []" "e \<noteq> ''.''" "e \<noteq> ''..''"
    using e by (simp_all add: path_component_def)
  have hdx: "hd (t @ CHR ''/'' # x) = hd t" and hde: "hd (t @ CHR ''/'' # e) = hd t"
    using t by simp_all
  have je: "Join t e = render_path rooted (out @ [e])"
    using t unfolding Join_def
    by (simp add: Clean_render hde rooted_def [symmetric] split_sep_append
        split_sep_no_slash [OF es(1)] Clean_elems_append out_def [symmetric]
        Clean_elems_component [OF e] del: Clean_elems.simps)
  define ox where "ox = Clean_elems rooted out [x]"
  have jx: "Join t x = render_path rooted ox"
    using t unfolding Join_def
    by (simp add: Clean_render hdx rooted_def [symmetric] split_sep_append
        split_sep_no_slash [OF x] Clean_elems_append out_def [symmetric] ox_def
        del: Clean_elems.simps)
  have oxs: "ox \<in> {out, butlast out, out @ [''..'']}"
    using Clean_elems_last [OF x, of rooted out] False by (simp add: ox_def)
  have okx: "elems_ok ox"
    using oxs ok elems_ok_butlast [OF ok] by (auto simp: elems_ok_def)
  have oke: "elems_ok (out @ [e])" using ok es by (simp add: elems_ok_def)
  have "ox = out @ [e]"
    by (rule render_path_inj [OF okx oke _ _ _]) (use es eq jx je in auto)
  with oxs es have False
    by (auto dest: arg_cong [where f = length])
  then show ?thesis ..
qed

subsection \<open>The queries and the cases of a listing\<close>

lemma modes: "dirMode AND S_IFMT = S_IFDIR" "fileMode AND S_IFMT = S_IFREG"
  by (simp_all add: dirMode_def fileMode_def S_IFMT_def S_IFDIR_def S_IFREG_def)

lemma pair_fst: "fst x = a \<Longrightarrow> x = (a, snd x)"
  by (cases x) simp

lemma in_collections: "c \<in> collections s \<longleftrightarrow> map_of (tableMap s) c \<noteq> None"
  by (simp add: collections_def map_of_eq_None_iff)

lemma getTables_state: "snd (getTables db s) = s\<lparr>issued := issued s @ [''SHOW tables'']\<rparr>"
  by (simp add: getTables_def Let_def split: sum.splits option.splits)

lemma getRecordIDs_state:
  "snd (getRecordIDs db t s) = s\<lparr>issued := issued s @ [recordIDsQuery t]\<rparr>"
  by (simp add: getRecordIDs_def Let_def split: sum.splits option.splits)

lemma getTables_fails_iff:
  "fst (getTables db s) = Inl e \<longleftrightarrow>
     QueryContext_string db ''SHOW tables'' = Inl e
   \<or> (\<exists>rows. QueryContext_string db ''SHOW tables'' = Inr rows \<and> Err rows = Some e)"
  by (auto simp: getTables_def Let_def split: sum.splits option.splits)

lemma getRecordIDs_fails_iff:
  "fst (getRecordIDs db t s) = Inl e \<longleftrightarrow>
     QueryContext_int64 db (recordIDsQuery t) = Inl e
   \<or> (\<exists>rows. QueryContext_int64 db (recordIDsQuery t) = Inr rows \<and> Err rows = Some e)"
  by (auto simp: getRecordIDs_def Let_def split: sum.splits option.splits)

lemma Readdir_root_ok:
  assumes "Path r = []" "getTables db s = (Inr C, s1)"
  shows "Readdir db r s = (Inr (dir_list dirMode C), s1\<lparr>tableMap := store_tables C []\<rparr>)"
  using assms by (simp add: Readdir_def Range_Delete_empty)

lemma Readdir_root_err:
  assumes "Path r = []" "getTables db s = (Inl e, s1)"
  shows "Readdir db r s = (Inl ENOENT, s1)"
  using assms by (simp add: Readdir_def)

lemma Readdir_coll_err:
  assumes "Path r \<noteq> []" "getRecordIDs db (Path r) s = (Inl e, s1)"
  shows "Readdir db r s = (Inl ENOENT, s1)"
  using assms by (simp add: Readdir_def)

lemma Readdir_coll_panic:
  assumes "Path r \<noteq> []" "getRecordIDs db (Path r) s = (Inr I, s1)" "map_of (tableMap s) (Path r) = None"
  shows "Readdir db r s = (Inl Panic, s1)"
proof -
  have "s1 = snd (getRecordIDs db (Path r) s)" using assms(2) by simp
  then have "tableMap s1 = tableMap s" by (simp add: getRecordIDs_state)
  then show ?thesis using assms by (simp add: Readdir_def Let_def)
qed

lemma Readdir_coll_ok:
  assumes "Path r \<noteq> []" "getRecordIDs db (Path r) s = (Inr I, s1)" "map_of (tableMap s) (Path r) = Some m"
  shows "Readdir db r s = (Inr (dir_list fileMode (render_ids I)),
           s1\<lparr>tableMap := AList.update (Path r) (store_entries (Path r) (render_ids I) []) (tableMap s)\<rparr>)"
proof -
  have "s1 = snd (getRecordIDs db (Path r) s)" using assms(2) by simp
  then have "tableMap s1 = tableMap s" by (simp add: getRecordIDs_state)
  then show ?thesis using assms by (simp add: Readdir_def Range_Delete_empty Let_def)
qed

lemma Readdir_root_tableMap:
  assumes "Path r = []"
  shows "tableMap (snd (Readdir db r s)) =
           (case fst (getTables db s) of Inl e \<Rightarrow> tableMap s | Inr C \<Rightarrow> store_tables C [])"
proof (cases "fst (getTables db s)")
  case (Inl e)
  from Readdir_root_err [OF assms pair_fst [OF Inl]] Inl show ?thesis
    by (simp add: getTables_state)
next
  case (Inr C)
  from Readdir_root_ok [OF assms pair_fst [OF Inr]] Inr show ?thesis
    by simp
qed

lemma Readdir_coll_tableMap:
  assumes "Path r \<noteq> []"
  shows "tableMap (snd (Readdir db r s)) = tableMap s
       \<or> (\<exists>m'. tableMap (snd (Readdir db r s)) = AList.update (Path r) m' (tableMap s)
               \<and> Path r \<in> collections s)"
proof (cases "fst (getRecordIDs db (Path r) s)")
  case (Inl e)
  from Readdir_coll_err [OF assms pair_fst [OF Inl]] show ?thesis
    by (simp add: getRecordIDs_state)
next
  case (Inr I)
  show ?thesis
  proof (cases "map_of (tableMap s) (Path r)")
    case None
    from Readdir_coll_panic [OF assms pair_fst [OF Inr] None] show ?thesis
      by (simp add: getRecordIDs_state)
  next
    case (Some m)
    then have "Path r \<in> collections s"
      by (simp add: in_collections)
    moreover from Readdir_coll_ok [OF assms pair_fst [OF Inr] Some]
    have "tableMap (snd (Readdir db r s)) =
            AList.update (Path r) (store_entries (Path r) (render_ids I) []) (tableMap s)"
      by (simp add: getRecordIDs_state)
    ultimately show ?thesis by blast
  qed
qed

lemma Readdir_panic_iff:
  "fst (Readdir db r s) = Inl Panic \<longleftrightarrow>
     Path r \<noteq> [] \<and> (\<exists>I. fst (getRecordIDs db (Path r) s) = Inr I) \<and> Path r \<notin> collections s"
proof (cases "Path r = []")
  case True
  show ?thesis
  proof (cases "fst (getTables db s)")
    case (Inl e)
    from Readdir_root_err [OF True pair_fst [OF Inl]] True show ?thesis by simp
  next
    case (Inr C)
    from Readdir_root_ok [OF True pair_fst [OF Inr]] True show ?thesis by simp
  qed
next
  case False
  show ?thesis
  proof (cases "fst (getRecordIDs db (Path r) s)")
    case (Inl e)
    from Readdir_coll_err [OF False pair_fst [OF Inl]] Inl show ?thesis by simp
  next
    case (Inr I)
    show ?thesis
    proof (cases "map_of (tableMap s) (Path r)")
      case None
      from Readdir_coll_panic [OF False pair_fst [OF Inr] None] False Inr None
      show ?thesis by (simp add: in_collections)
    next
      case (Some m)
      from Readdir_coll_ok [OF False pair_fst [OF Inr] Some] False Inr Some
      show ?thesis by (simp add: in_collections)
    qed
  qed
qed

lemma Lookup_state: "snd (Lookup r n s) = s"
  by (simp add: Lookup_def Let_def split: option.splits)

lemma Lookup_tableMap_cong: "tableMap s = tableMap s' \<Longrightarrow> fst (Lookup r n s) = fst (Lookup r n s')"
  by (simp add: Lookup_def Let_def split: option.splits)

lemma Lookup_no_panic: "fst (Lookup r n s) \<noteq> Inl Panic"
  by (simp add: Lookup_def Let_def split: option.splits)

lemma Opendir_state: "snd (Opendir r s) = s"
  by (simp add: Opendir_def)

lemma snd_step_Readdir: "snd (step (Op_Readdir db r) s) = snd (Readdir db r s)"
  by (simp split: prod.splits)

subsection \<open>The invariant of the index\<close>

lemma store_tables_inv:
  "list_all (\<lambda>(t, m). list_all (entry_ok t) m) tm
     \<Longrightarrow> list_all (\<lambda>(t, m). list_all (entry_ok t) m) (store_tables C tm)"
  unfolding store_tables_def
  by (induction C arbitrary: tm) (simp_all add: list_all_update)

lemma store_entries_inv:
  "list_all (entry_ok p) m \<Longrightarrow> list_all path_component es
     \<Longrightarrow> list_all (entry_ok p) (store_entries p es m)"
  unfolding store_entries_def
  by (induction es arbitrary: m) (simp_all add: list_all_update entry_ok_def Let_def)

lemma index_inv_init: "index_inv init"
  by (simp add: index_inv_def init_def)

lemma index_inv_issued: "index_inv (s\<lparr>issued := q\<rparr>) = index_inv s"
  by (simp add: index_inv_def)

lemma index_inv_Readdir:
  assumes "index_inv s"
  shows "index_inv (snd (Readdir db r s))"
proof (cases "Path r = []")
  case True
  show ?thesis
  proof (cases "fst (getTables db s)")
    case (Inl e)
    then have "getTables db s = (Inl e, snd (getTables db s))" by (metis prod.collapse)
    from Readdir_root_err [OF True this] assms show ?thesis
      by (simp add: getTables_state index_inv_issued)
  next
    case (Inr C)
    then have "getTables db s = (Inr C, snd (getTables db s))" by (metis prod.collapse)
    from Readdir_root_ok [OF True this] show ?thesis
      using store_tables_inv [of "[]" C] by (simp add: index_inv_def)
  qed
next
  case False
  show ?thesis
  proof (cases "fst (getRecordIDs db (Path r) s)")
    case (Inl e)
    then have "getRecordIDs db (Path r) s = (Inl e, snd (getRecordIDs db (Path r) s))"
      by (metis prod.collapse)
    from Readdir_coll_err [OF False this] assms show ?thesis
      by (simp add: getRecordIDs_state index_inv_issued)
  next
    case (Inr I)
    then have g: "getRecordIDs db (Path r) s = (Inr I, snd (getRecordIDs db (Path r) s))"
      by (metis prod.collapse)
    show ?thesis
    proof (cases "map_of (tableMap s) (Path r)")
      case None
      from Readdir_coll_panic [OF False g None] assms show ?thesis
        by (simp add: getRecordIDs_state index_inv_issued)
    next
      case (Some m)
      have "list_all (entry_ok (Path r)) (store_entries (Path r) (render_ids I) [])"
        by (rule store_entries_inv) (simp_all add: render_ids_components)
      with Readdir_coll_ok [OF False g Some] assms show ?thesis
        by (simp add: index_inv_def getRecordIDs_state list_all_update)
    qed
  qed
qed

lemma index_inv_step: "index_inv s \<Longrightarrow> index_inv (snd (step x s))"
  by (cases x) (simp_all add: index_inv_Readdir Lookup_state Opendir_state split: prod.splits,
      (metis snd_conv index_inv_Readdir Lookup_state Opendir_state)+)

lemma reachable_index_inv: "reachable s \<Longrightarrow> index_inv s"
  by (induction rule: reachable.induct) (simp_all add: index_inv_init index_inv_step)

lemma reachable_Readdir: "reachable s \<Longrightarrow> reachable (snd (Readdir db r s))"
  using reachable_step [of s "Op_Readdir db r"] by (simp split: prod.splits)

lemma reachable_s_users: "reachable s_users"
  unfolding s_users_def s_root_def by (intro reachable_Readdir reachable_init)

lemma index_inv_entry:
  assumes "index_inv s" "map_of (tableMap s) t = Some m" "map_of m p = Some fi"
  shows "path fi = p \<and> p = Join t (name fi) \<and> path_component (name fi)"
proof -
  have "(t, m) \<in> set (tableMap s)" using assms(2) by (rule map_of_SomeD)
  then have "list_all (entry_ok t) m" using assms(1) by (auto simp: index_inv_def list_all_iff)
  moreover have "(p, fi) \<in> set m" using assms(3) by (rule map_of_SomeD)
  ultimately show ?thesis by (auto simp: list_all_iff entry_ok_def)
qed

subsection \<open>Lookups\<close>

lemma hit_root: "Path r = [] \<Longrightarrow> hit (Lookup r n s) \<longleftrightarrow> n \<in> collections s"
proof -
  assume root: "Path r = []"
  have "hit (Lookup r n s) \<longleftrightarrow> map_of (tableMap s) n \<noteq> None"
    using root by (simp add: hit_def Lookup_def Let_def split: option.splits)
  then show ?thesis by (simp add: collections_def map_of_eq_None_iff)
qed

lemma hit_coll_path:
  "Path r \<noteq> [] \<Longrightarrow> hit (Lookup r n s) \<longleftrightarrow>
     (\<exists>m fi. map_of (tableMap s) (Path r) = Some m \<and> map_of m (Join (Path r) n) = Some fi)"
  by (auto simp: hit_def Lookup_def Let_def split: option.splits)

lemma hit_or_miss: "hit (Lookup r n s) \<or> miss (Lookup r n s)"
  by (simp add: hit_def miss_def Lookup_def Let_def split: option.splits)

lemma hit_coll_name:
  assumes "index_inv s" "Path r \<noteq> []" "CHR ''/'' \<notin> set n"
  shows "hit (Lookup r n s) \<longleftrightarrow> n \<in> entry_names s (Path r)"
proof
  assume "hit (Lookup r n s)"
  then obtain m fi where m: "map_of (tableMap s) (Path r) = Some m"
    and fi: "map_of m (Join (Path r) n) = Some fi"
    using hit_coll_path [OF assms(2)] by blast
  from index_inv_entry [OF assms(1) m fi]
  have "Join (Path r) n = Join (Path r) (name fi)" "path_component (name fi)" by simp_all
  then have "n = name fi" using Join_inj_no_slash [OF assms(2) assms(3)] by blast
  moreover have "fi \<in> ran (map_of m)" using fi by (auto simp: ran_def)
  ultimately show "n \<in> entry_names s (Path r)"
    using m by (auto simp: entry_names_def entry_set_def)
next
  assume "n \<in> entry_names s (Path r)"
  then obtain m fi p where m: "map_of (tableMap s) (Path r) = Some m"
    and fi: "map_of m p = Some fi" and n: "n = name fi"
    by (auto simp: entry_names_def entry_set_def ran_def split: option.splits)
  from index_inv_entry [OF assms(1) m fi] n have "p = Join (Path r) n" by simp
  then show "hit (Lookup r n s)" using hit_coll_path [OF assms(2)] m fi by blast
qed

lemma hit_after_root_listing:
  assumes "Path r = []" "fst (getTables db s) = Inr C"
  shows "hit (Lookup r n (snd (Readdir db r s))) \<longleftrightarrow> n \<in> set C"
  using Readdir_root_ok [OF assms(1) pair_fst [OF assms(2)]]
  by (simp add: hit_root [OF assms(1)] collections_def store_tables_keys)

lemma hit_after_listing:
  assumes "Path r \<noteq> []" "fst (getRecordIDs db (Path r) s) = Inr I" "Path r \<in> collections s"
    and "CHR ''/'' \<notin> set n"
  shows "hit (Lookup r n (snd (Readdir db r s))) \<longleftrightarrow> n \<in> set (render_ids I)"
proof -
  obtain m where m: "map_of (tableMap s) (Path r) = Some m"
    using assms(3) by (auto simp: in_collections)
  let ?m' = "store_entries (Path r) (render_ids I) []"
  have tm: "map_of (tableMap (snd (Readdir db r s))) (Path r) = Some ?m'"
    using Readdir_coll_ok [OF assms(1) pair_fst [OF assms(2)] m] by (simp add: update_conv')
  have "hit (Lookup r n (snd (Readdir db r s))) \<longleftrightarrow> map_of ?m' (Join (Path r) n) \<noteq> None"
    using hit_coll_path [OF assms(1), of n "snd (Readdir db r s)"] tm by auto
  also have "\<dots> \<longleftrightarrow> Join (Path r) n \<in> Join (Path r) ` set (render_ids I)"
    by (simp add: map_of_eq_None_iff store_entries_keys)
  also have "\<dots> \<longleftrightarrow> n \<in> set (render_ids I)"
  proof
    assume "Join (Path r) n \<in> Join (Path r) ` set (render_ids I)"
    then obtain e where e: "e \<in> set (render_ids I)" "Join (Path r) n = Join (Path r) e" by auto
    then have "path_component e" using render_ids_components [of I] by (simp add: list_all_iff)
    from Join_inj_no_slash [OF assms(1) assms(4) this e(2)] e(1)
    show "n \<in> set (render_ids I)" by simp
  qed simp
  finally show ?thesis .
qed

subsection \<open>Histories\<close>

lemma getTables_log_irrelevant: "fst (getTables db s) = fst (getTables db s')"
  by (simp add: getTables_def Let_def split: sum.splits option.splits)

lemma getRecordIDs_log_irrelevant: "fst (getRecordIDs db t s) = fst (getRecordIDs db t s')"
  by (simp add: getRecordIDs_def Let_def split: sum.splits option.splits)

lemma fetched_tables_eq: "fetched_tables db = fst (getTables db s)"
  unfolding fetched_tables_def by (rule getTables_log_irrelevant)

lemma fetched_names_eq:
  "fetched_names db t = (case fst (getRecordIDs db t s) of Inl e \<Rightarrow> Inl e | Inr ids \<Rightarrow> Inr (render_ids ids))"
  unfolding fetched_names_def getRecordIDs_log_irrelevant [of db t init s] ..

lemma state_after_snoc: "state_after (xs @ [x]) = snd (step x (state_after xs))"
  by (simp add: state_after_def)

lemma snd_step_Opendir: "snd (step (Op_Opendir r) s) = s"
  by (simp add: Opendir_def)

lemma snd_step_Lookup: "snd (step (Op_Lookup r n) s) = s"
  using Lookup_state [of r n s] by (cases "Lookup r n s") simp

lemma Lookup_coll_cong:
  "Path r \<noteq> [] \<Longrightarrow> map_of (tableMap s) (Path r) = map_of (tableMap s') (Path r)
     \<Longrightarrow> fst (Lookup r n s) = fst (Lookup r n s')"
  by (simp add: Lookup_def Let_def split: option.splits)

lemma hit_cong: "fst (Lookup r n s) = fst (Lookup r n s') \<Longrightarrow> hit (Lookup r n s) = hit (Lookup r n s')"
  by (simp add: hit_def)

lemma miss_after_root_listing:
  assumes "Path r' = []" "fst (getTables db s) = Inr C" "Path r \<noteq> []"
  shows "\<not> hit (Lookup r n (snd (Readdir db r' s)))"
proof -
  have "tableMap (snd (Readdir db r' s)) = store_tables C []"
    using Readdir_root_ok [OF assms(1) pair_fst [OF assms(2)]] by simp
  then show ?thesis
    using hit_coll_path [OF assms(3), of n "snd (Readdir db r' s)"]
    by (auto simp: store_tables_map_of split: if_splits)
qed

lemma Readdir_coll_collections:
  assumes "Path r \<noteq> []"
  shows "collections (snd (Readdir db r s)) = collections s"
proof -
  consider "tableMap (snd (Readdir db r s)) = tableMap s"
    | m' where "tableMap (snd (Readdir db r s)) = AList.update (Path r) m' (tableMap s)"
        "Path r \<in> collections s"
    using Readdir_coll_tableMap [OF assms, of db s] by blast
  then show ?thesis
  proof cases
    case 1
    then show ?thesis by (simp add: collections_def)
  next
    case 2
    have "fst ` set (AList.update (Path r) m' (tableMap s)) = {Path r} \<union> fst ` set (tableMap s)"
      by (rule dom_update)
    with 2 show ?thesis by (auto simp: collections_def)
  qed
qed

lemma Readdir_coll_other:
  assumes "Path r \<noteq> []" "c \<noteq> Path r"
  shows "map_of (tableMap (snd (Readdir db r s))) c = map_of (tableMap s) c"
  using Readdir_coll_tableMap [OF assms(1), of db s] assms(2) by (auto simp: update_conv')

lemma collections_state_after: "collections (state_after xs) = rebuilt_collections (rev xs)"
proof (induction xs rule: rev_induct)
  case Nil
  then show ?case by (simp add: state_after_def init_def collections_def)
next
  case (snoc x xs)
  show ?case
  proof (cases x)
    case (Op_Opendir r)
    with snoc show ?thesis by (simp add: state_after_snoc snd_step_Opendir del: step.simps)
  next
    case (Op_Lookup r n)
    with snoc show ?thesis by (simp add: state_after_snoc snd_step_Lookup del: step.simps)
  next
    case (Op_Readdir db r)
    let ?s = "state_after xs"
    have st: "state_after (xs @ [Op_Readdir db r]) = snd (Readdir db r ?s)"
      unfolding state_after_snoc by (rule snd_step_Readdir)
    show ?thesis
    proof (cases "Path r = []")
      case True
      show ?thesis
      proof (cases "fetched_tables db")
        case (Inl e)
        then have "fst (getTables db ?s) = Inl e"
          unfolding fetched_tables_eq [of db ?s] .
        then have "tableMap (snd (Readdir db r ?s)) = tableMap ?s"
          using Readdir_root_tableMap [OF True, of db ?s] by simp
        with snoc Inl True show ?thesis by (simp add: st Op_Readdir collections_def)
      next
        case (Inr C)
        then have "fst (getTables db ?s) = Inr C"
          unfolding fetched_tables_eq [of db ?s] .
        then have "tableMap (snd (Readdir db r ?s)) = store_tables C []"
          using Readdir_root_tableMap [OF True, of db ?s] by simp
        with Inr True show ?thesis
          by (simp add: st Op_Readdir collections_def store_tables_keys)
      qed
    next
      case False
      have "collections (snd (Readdir db r ?s)) = collections ?s"
        by (rule Readdir_coll_collections [OF False])
      with snoc False show ?thesis by (simp add: st Op_Readdir)
    qed
  qed
qed

lemma hit_of_entries:
  assumes "Path r \<noteq> []" "CHR ''/'' \<notin> set n"
    and tm: "map_of (tableMap s) (Path r) = Some (store_entries (Path r) (render_ids I) [])"
  shows "hit (Lookup r n s) \<longleftrightarrow> n \<in> set (render_ids I)"
proof -
  let ?m' = "store_entries (Path r) (render_ids I) []"
  have "hit (Lookup r n s) \<longleftrightarrow> map_of ?m' (Join (Path r) n) \<noteq> None"
    using hit_coll_path [OF assms(1), of n s] tm by auto
  also have "\<dots> \<longleftrightarrow> Join (Path r) n \<in> Join (Path r) ` set (render_ids I)"
    by (simp add: map_of_eq_None_iff store_entries_keys)
  also have "\<dots> \<longleftrightarrow> n \<in> set (render_ids I)"
  proof
    assume "Join (Path r) n \<in> Join (Path r) ` set (render_ids I)"
    then obtain e where e: "e \<in> set (render_ids I)" "Join (Path r) n = Join (Path r) e" by auto
    then have "path_component e" using render_ids_components [of I] by (simp add: list_all_iff)
    from Join_inj_no_slash [OF assms(1) assms(2) this e(2)] e(1)
    show "n \<in> set (render_ids I)" by simp
  qed simp
  finally show ?thesis .
qed

lemma entries_state_after:
  assumes "Path r \<noteq> []" "CHR ''/'' \<notin> set n"
  shows "hit (Lookup r n (state_after xs)) \<longleftrightarrow> n \<in> rebuilt_entries (Path r) (rev xs)"
proof (induction xs rule: rev_induct)
  case Nil
  then show ?case
    using hit_coll_path [OF assms(1), of n init] by (simp add: state_after_def init_def)
next
  case (snoc x xs)
  let ?s = "state_after xs"
  show ?case
  proof (cases x)
    case (Op_Opendir r')
    with snoc show ?thesis by (simp add: state_after_snoc snd_step_Opendir del: step.simps)
  next
    case (Op_Lookup r' n')
    with snoc show ?thesis by (simp add: state_after_snoc snd_step_Lookup del: step.simps)
  next
    case (Op_Readdir db r')
    have st: "state_after (xs @ [Op_Readdir db r']) = snd (Readdir db r' ?s)"
      unfolding state_after_snoc by (rule snd_step_Readdir)
    show ?thesis
    proof (cases "Path r' = []")
      case True
      show ?thesis
      proof (cases "fetched_tables db")
        case (Inl e)
        then have "fst (getTables db ?s) = Inl e"
          unfolding fetched_tables_eq [of db ?s] .
        then have "tableMap (snd (Readdir db r' ?s)) = tableMap ?s"
          using Readdir_root_tableMap [OF True, of db ?s] by simp
        then have "hit (Lookup r n (snd (Readdir db r' ?s))) = hit (Lookup r n ?s)"
          by (intro hit_cong Lookup_tableMap_cong)
        with snoc Inl True show ?thesis by (simp add: st Op_Readdir)
      next
        case (Inr C)
        then have "fst (getTables db ?s) = Inr C"
          unfolding fetched_tables_eq [of db ?s] .
        from miss_after_root_listing [OF True this assms(1)] Inr True
        show ?thesis by (simp add: st Op_Readdir)
      qed
    next
      case False
      show ?thesis
      proof (cases "Path r' = Path r")
        case ne: False
        then have "map_of (tableMap (snd (Readdir db r' ?s))) (Path r) = map_of (tableMap ?s) (Path r)"
          using Readdir_coll_other [OF False, of "Path r" db ?s] by simp
        then have "hit (Lookup r n (snd (Readdir db r' ?s))) = hit (Lookup r n ?s)"
          by (intro hit_cong Lookup_coll_cong [OF assms(1)])
        with snoc False ne show ?thesis by (simp add: st Op_Readdir)
      next
        case eq: True
        have same: "tableMap (snd (Readdir db r' ?s)) = tableMap ?s
            \<Longrightarrow> hit (Lookup r n (snd (Readdir db r' ?s))) = hit (Lookup r n ?s)"
          by (intro hit_cong Lookup_tableMap_cong)
        show ?thesis
        proof (cases "Path r \<in> rebuilt_collections (rev xs)")
          case absent: False
          then have "Path r' \<notin> collections ?s"
            unfolding collections_state_after eq .
          then have "map_of (tableMap ?s) (Path r') = None"
            by (simp add: in_collections)
          then have "tableMap (snd (Readdir db r' ?s)) = tableMap ?s"
            using Readdir_coll_tableMap [OF False, of db ?s] by (auto simp: in_collections)
          from same [OF this] snoc False eq absent show ?thesis by (simp add: st Op_Readdir)
        next
          case present: True
          then have pc: "Path r' \<in> collections ?s"
            unfolding collections_state_after eq .
          show ?thesis
          proof (cases "fst (getRecordIDs db (Path r') ?s)")
            case (Inl e)
            then have f: "fetched_names db (Path r) = Inl e"
              unfolding fetched_names_eq [of db "Path r" ?s] eq by simp
            have "tableMap (snd (Readdir db r' ?s)) = tableMap ?s"
              using Readdir_coll_err [OF False pair_fst [OF Inl]] by (simp add: getRecordIDs_state)
            from same [OF this] snoc False eq present f show ?thesis by (simp add: st Op_Readdir)
          next
            case (Inr I)
            then have f: "fetched_names db (Path r) = Inr (render_ids I)"
              unfolding fetched_names_eq [of db "Path r" ?s] eq by simp
            have "map_of (tableMap ?s) (Path r') \<noteq> None" using pc by (simp add: in_collections)
            then obtain m where m: "map_of (tableMap ?s) (Path r') = Some m" by auto
            have tm: "map_of (tableMap (snd (Readdir db r' ?s))) (Path r)
                        = Some (store_entries (Path r) (render_ids I) [])"
              using Readdir_coll_ok [OF False pair_fst [OF Inr] m] eq by (simp add: update_conv')
            have "hit (Lookup r n (snd (Readdir db r' ?s))) \<longleftrightarrow> n \<in> set (render_ids I)"
              by (rule hit_of_entries [OF assms tm])
            with False eq present f show ?thesis by (simp add: st Op_Readdir)
          qed
        qed
      qed
    qed
  qed
qed

subsection \<open>Concurrent requests\<close>

lemma thread_ok_step: "thread_ok (x, p) \<Longrightarrow> thread_ok (x, fst (thread_step pick x p sh))"
proof (cases x)
  case (Op_Opendir r)
  assume "thread_ok (x, p)"
  with Op_Opendir show ?thesis by auto
next
  case (Op_Lookup r nm)
  assume "thread_ok (x, p)"
  with Op_Lookup show ?thesis
    by (cases p) (auto split: option.splits reply.splits)
next
  case (Op_Readdir db r)
  assume ok: "thread_ok (x, p)"
  show ?thesis
  proof (cases p)
    case Start
    show ?thesis
    proof (cases "Path r = []")
      case True
      with Op_Readdir Start show ?thesis by (auto split: prod.splits sum.splits)
    next
      case False
      with Op_Readdir Start show ?thesis
        by (auto split: prod.splits sum.splits simp: fetched_names_eq [of db "Path r" "mem_state sh"])
    qed
  next
    case (Root_Range els todo seen)
    with ok Op_Readdir show ?thesis by (auto split: visit.splits)
  next
    case (Coll_Range a els todo seen)
    with ok Op_Readdir show ?thesis by (auto split: visit.splits)
  next
    case (Root_Store els rest)
    with ok Op_Readdir show ?thesis by (cases rest) auto
  next
    case (Coll_Store a els rest)
    with ok Op_Readdir show ?thesis by (cases rest) auto
  next
    case (Coll_Fetched els)
    with ok Op_Readdir show ?thesis by (auto split: option.splits)
  next
    case (Done rep)
    with ok Op_Readdir show ?thesis by (cases rep) auto
  qed (use ok Op_Readdir in auto)
qed

lemma thread_step_fault:
  assumes "thread_ok (x, p)" "\<not> fault_pc p"
  shows "fault_pc (fst (thread_step pick x p sh)) \<longleftrightarrow>
           (\<exists>db r els. x = Op_Readdir db r \<and> p = Coll_Fetched els \<and> map_of (index sh) (Path r) = None)"
proof (cases x)
  case (Op_Opendir r)
  with assms show ?thesis by (auto simp: fault_pc_def)
next
  case (Op_Lookup r nm)
  with assms show ?thesis
    by (cases p) (auto simp: fault_pc_def split: option.splits reply.splits)
next
  case (Op_Readdir db r)
  show ?thesis
  proof (cases p)
    case Start
    with Op_Readdir show ?thesis by (auto simp: fault_pc_def split: prod.splits sum.splits)
  next
    case (Root_Range els todo seen)
    with Op_Readdir show ?thesis by (auto simp: fault_pc_def split: visit.splits)
  next
    case (Coll_Range a els todo seen)
    with Op_Readdir show ?thesis by (auto simp: fault_pc_def split: visit.splits)
  next
    case (Root_Store els rest)
    with Op_Readdir show ?thesis by (cases rest) (auto simp: fault_pc_def)
  next
    case (Coll_Store a els rest)
    with Op_Readdir show ?thesis by (cases rest) (auto simp: fault_pc_def)
  next
    case (Coll_Fetched els)
    with Op_Readdir show ?thesis by (auto simp: fault_pc_def split: option.splits)
  next
    case (Done rep)
    with assms Op_Readdir show ?thesis by (cases rep) (auto simp: fault_pc_def)
  qed (use Op_Readdir in \<open>auto simp: fault_pc_def\<close>)
qed

lemma sched_step_threads:
  "map fst (threads (sched_step mv c)) = map fst (threads c)"
  by (auto simp: sched_step_def map_update list_update_same_conv split: prod.splits)

lemma sched_step_ok:
  assumes "list_all thread_ok (threads c)"
  shows "list_all thread_ok (threads (sched_step mv c))"
proof (cases "crashed c \<or> length (threads c) \<le> fst mv")
  case True
  with assms show ?thesis by (simp add: sched_step_def)
next
  case False
  let ?t = "threads c ! fst mv"
  have "thread_ok ?t" using assms False by (simp add: list_all_length)
  then have "thread_ok (fst ?t, snd ?t)" by simp
  then have "thread_ok (fst ?t, fst (thread_step (snd mv) (fst ?t) (snd ?t) (mem c)))"
    by (rule thread_ok_step)
  with assms False show ?thesis
    by (auto simp: sched_step_def list_all_length nth_list_update split: prod.splits)
qed

lemma execute_snoc: "execute (sched @ [mv]) c = sched_step mv (execute sched c)"
  by (simp add: execute_def)

lemma execute_threads: "map fst (threads (execute sched c)) = map fst (threads c)"
  by (induction sched rule: rev_induct) (simp_all add: execute_def sched_step_threads)

lemma execute_ok: "list_all thread_ok (threads c) \<Longrightarrow> list_all thread_ok (threads (execute sched c))"
  by (induction sched rule: rev_induct) (simp_all add: execute_def sched_step_ok)

lemma launch_ok: "list_all thread_ok (threads (launch xs))"
  by (induction xs) (auto simp: launch_def, (case_tac a; simp)+)

lemma launch_threads: "map fst (threads (launch xs)) = xs"
  by (simp add: launch_def o_def)

lemma sched_step_crashed:
  assumes "\<not> crashed c" "list_all thread_ok (threads c)"
  shows "crashed (sched_step (i, pick) c) \<longleftrightarrow>
           i < length (threads c)
           \<and> (\<exists>db r els. threads c ! i = (Op_Readdir db r, Coll_Fetched els)
                 \<and> map_of (index (mem c)) (Path r) = None)"
proof (cases "i < length (threads c)")
  case False
  with assms show ?thesis by (simp add: sched_step_def)
next
  case True
  let ?t = "threads c ! i"
  let ?p' = "fst (thread_step pick (fst ?t) (snd ?t) (mem c))"
  have nf: "\<forall>t \<in> set (threads c). \<not> fault_pc (snd t)"
    using assms(1) by (simp add: crashed_def list_ex_iff)
  have ok: "thread_ok (fst ?t, snd ?t)" using assms(2) True by (simp add: list_all_length)
  have nfi: "\<not> fault_pc (snd ?t)" using nf True by simp
  have th: "threads (sched_step (i, pick) c) = (threads c)[i := (fst ?t, ?p')]"
    using True assms(1) by (simp add: sched_step_def split: prod.splits)
  have "crashed (sched_step (i, pick) c) \<longleftrightarrow> fault_pc ?p'"
  proof
    assume "crashed (sched_step (i, pick) c)"
    then obtain t where t: "t \<in> set ((threads c)[i := (fst ?t, ?p')])" "fault_pc (snd t)"
      unfolding crashed_def th list_ex_iff by blast
    then have "t = (fst ?t, ?p') \<or> t \<in> set (threads c)"
      using set_update_subset_insert [of "threads c" i "(fst ?t, ?p')"] by auto
    with t(2) nf show "fault_pc ?p'" by auto
  next
    assume "fault_pc ?p'"
    moreover have "(fst ?t, ?p') \<in> set ((threads c)[i := (fst ?t, ?p')])"
      using True by (simp add: set_update_memI)
    ultimately show "crashed (sched_step (i, pick) c)"
      unfolding crashed_def th list_ex_iff by force
  qed
  also have "\<dots> \<longleftrightarrow> (\<exists>db r els. fst ?t = Op_Readdir db r \<and> snd ?t = Coll_Fetched els
                          \<and> map_of (index (mem c)) (Path r) = None)"
    by (rule thread_step_fault [OF ok nfi])
  also have "\<dots> \<longleftrightarrow> (\<exists>db r els. ?t = (Op_Readdir db r, Coll_Fetched els)
                          \<and> map_of (index (mem c)) (Path r) = None)"
    by (cases ?t) auto
  finally show ?thesis using True by simp
qed

lemma Lookup_thread_returns:
  assumes "thread_ok (Op_Lookup r nm, p)"
  shows "\<exists>y. fst (thread_step k2 (Op_Lookup r nm) (fst (thread_step k1 (Op_Lookup r nm) p sh1)) sh2)
               = Done (Found y) \<and> (y = Inl ENOENT \<or> (\<exists>child. y = Inr child))"
proof (cases p)
  case Start
  then show ?thesis by (auto split: option.splits)
next
  case (Look_Loaded a)
  then show ?thesis by (auto split: option.splits)
next
  case (Done rep)
  with assms obtain y where "rep = Found y" "y \<noteq> Inl Panic" by (cases rep) auto
  with Done show ?thesis by (cases y) (auto, (case_tac a; simp)+)
qed (use assms in auto)

subsection \<open>A request served alone, and requests served one after another\<close>

lemma Lookup_thread_memory: "snd (thread_step pick (Op_Lookup r n) p sh) = sh"
  by (cases p) (auto split: option.splits)

lemma Lookup_thread_root:
  "Path r = [] \<Longrightarrow>
     (\<exists>child. fst (thread_step pick (Op_Lookup r n) Start sh) = Done (Found (Inr child)))
       \<longleftrightarrow> map_of (index sh) n \<noteq> None"
  by (auto split: option.splits)

lemma Lookup_thread_coll:
  "Path r \<noteq> [] \<Longrightarrow>
     (\<exists>child. fst (thread_step pick (Op_Lookup r n) (Look_Loaded a) sh) = Done (Found (Inr child)))
       \<longleftrightarrow> map_of (maps sh a) (Join (Path r) n) \<noteq> None"
  by (auto split: option.splits)

lemma mem_state_simps [simp]:
  "issued (mem_state sh) = sent sh"
  "tableMap (mem_state sh) = map (\<lambda>(k, a). (k, maps sh a)) (index sh)"
  by (simp_all add: mem_state_def)

lemma mem_state_sent: "mem_state (sh\<lparr>sent := q\<rparr>) = (mem_state sh)\<lparr>issued := q\<rparr>"
  by (simp add: mem_state_def)

lemma keys_empty: "fst ` set xs \<subseteq> {} \<Longrightarrow> xs = []"
  by (cases xs) auto

lemma delete_keys_set: "fst ` set (AList.delete k xs) = fst ` set xs - {k}"
  by (induction xs) auto

lemma list_all_delete: "list_all P xs \<Longrightarrow> list_all P (AList.delete k xs)"
  by (induction xs) auto

lemma store_fresh_abs:
  "list_all (\<lambda>e. snd e \<noteq> n) idx \<Longrightarrow>
     map (\<lambda>(k, a). (k, (f(n := v)) a)) (AList.update e n idx)
       = AList.update e v (map (\<lambda>(k, a). (k, f a)) idx)"
  by (induction idx) (auto simp: list_all_iff)

lemma mem_ok_sent: "mem_ok (sh\<lparr>sent := q\<rparr>) = mem_ok sh"
  by (simp add: mem_ok_def)

lemma mem_ok_maps: "mem_ok (sh\<lparr>maps := m\<rparr>) = mem_ok sh"
  by (simp add: mem_ok_def)

lemma mem_ok_delete: "mem_ok sh \<Longrightarrow> mem_ok (sh\<lparr>index := AList.delete k (index sh)\<rparr>)"
  by (simp add: mem_ok_def AList.delete_eq distinct_map_filter list_all_iff)

lemma distinct_snd_update:
  "distinct (map snd idx) \<Longrightarrow> list_all (\<lambda>e. snd e \<noteq> n) idx \<Longrightarrow> distinct (map snd (AList.update e n idx))"
proof (induction idx)
  case Nil
  then show ?case by simp
next
  case (Cons x idx)
  have "snd ` set (AList.update e n idx) \<subseteq> insert n (snd ` set idx)"
    by (induction idx) auto
  with Cons show ?case by (auto simp: list_all_iff)
qed

lemma mem_ok_store:
  assumes "mem_ok sh"
  shows "mem_ok (sh\<lparr>index := AList.update e (fresh sh) (index sh),
                    maps := (maps sh)(fresh sh := []), fresh := Suc (fresh sh)\<rparr>)"
proof -
  have b: "list_all (\<lambda>e. snd e < fresh sh) (index sh)" using assms by (simp add: mem_ok_def)
  then have ne: "list_all (\<lambda>e. snd e \<noteq> fresh sh) (index sh)" by (auto simp: list_all_iff)
  have "list_all (\<lambda>e. snd e < Suc (fresh sh)) (AList.update e (fresh sh) (index sh))"
    using b by (intro list_all_update) (auto simp: list_all_iff less_Suc_eq)
  then show ?thesis
    using assms distinct_snd_update [OF _ ne, of e] by (simp add: mem_ok_def distinct_update)
qed

lemma store_tables_snoc: "store_tables (xs @ [e]) tm = AList.update e [] (store_tables xs tm)"
  by (simp add: store_tables_def)

lemma step_Readdir: "step (Op_Readdir db r) s = (Listed (fst (Readdir db r s)), snd (Readdir db r s))"
  by (simp split: prod.splits)

lemma range_next_cases:
  "range_next pick todo seen m = Disabled
   \<or> (range_next pick todo seen m = Finish \<and> todo = [])
   \<or> (\<exists>k. range_next pick todo seen m = Skip (removeAll k todo) \<and> k \<notin> fst ` set m)
   \<or> (\<exists>k seen'. range_next pick todo seen m = Callback k (removeAll k todo) seen' \<and> k \<in> set todo)
   \<or> (\<exists>k seen'. range_next pick todo seen m = Callback k todo seen' \<and> map_of m k \<noteq> None)"
  by (auto simp: range_next_def map_of_eq_None_iff split: option.splits)

lemma root_inv_step:
  assumes "root_inv sh0 db r p sh" "Path r = []" "mem_ok sh0"
  shows "root_inv sh0 db r (fst (thread_step pick (Op_Readdir db r) p sh))
           (snd (thread_step pick (Op_Readdir db r) p sh))"
proof (cases p)
  case Start
  then have eq: "sh = sh0" using assms(1) by (simp add: root_inv_def)
  show ?thesis
  proof (cases "fst (getTables db (mem_state sh0))")
    case (Inl e)
    have g: "getTables db (mem_state sh0) = (Inl e, (mem_state sh0)\<lparr>issued := sent sh0 @ [''SHOW tables'']\<rparr>)"
      using pair_fst [OF Inl] by (simp add: getTables_state)
    have t: "thread_step pick (Op_Readdir db r) Start sh0
               = (Done (Listed (Inl ENOENT)), sh0\<lparr>sent := sent sh0 @ [''SHOW tables'']\<rparr>)"
      by (simp add: assms(2) g)
    have "Readdir db r (mem_state sh0) = (Inl ENOENT, (mem_state sh0)\<lparr>issued := sent sh0 @ [''SHOW tables'']\<rparr>)"
      using Readdir_root_err [OF assms(2) g] .
    then show ?thesis unfolding Start eq t using assms(3)
      by (simp add: root_inv_def step_Readdir mem_state_sent mem_ok_sent del: step.simps mem_state_simps)
  next
    case (Inr C)
    have g: "getTables db (mem_state sh0) = (Inr C, (mem_state sh0)\<lparr>issued := sent sh0 @ [''SHOW tables'']\<rparr>)"
      using pair_fst [OF Inr] by (simp add: getTables_state)
    have t: "thread_step pick (Op_Readdir db r) Start sh0
               = (Root_Fetched C, sh0\<lparr>sent := sent sh0 @ [''SHOW tables'']\<rparr>)"
      by (simp add: assms(2) g)
    show ?thesis unfolding Start eq t using Inr by (simp add: root_inv_def)
  qed
next
  case (Root_Fetched els)
  with assms show ?thesis by (auto simp: root_inv_def mem_ok_sent)
next
  case (Root_Range els todo seen)
  from range_next_cases [of pick todo seen "index sh"] Root_Range assms(1)
  show ?thesis
    by (elim disjE exE conjE) (auto simp: root_inv_def store_tables_def dest!: keys_empty)
next
  case (Root_Delete els todo seen k)
  with assms(1) show ?thesis
    by (auto simp: root_inv_def delete_keys_set mem_ok_delete)
next
  case (Root_Store els rest)
  show ?thesis
  proof (cases rest)
    case Nil
    from Root_Store Nil assms(1)
    have f: "fst (getTables db (mem_state sh0)) = Inr els"
      and q: "sent sh = sent sh0 @ [''SHOW tables'']"
      and t: "tableMap (mem_state sh) = store_tables els []"
      and ok: "mem_ok sh"
      by (auto simp: root_inv_def)
    have "mem_state sh = snd (Readdir db r (mem_state sh0))"
      using Readdir_root_ok [OF assms(2) pair_fst [OF f]] q t
      by (simp add: getTables_state mem_state_def)
    moreover have "fst (Readdir db r (mem_state sh0)) = Inr (dir_list dirMode els)"
      using Readdir_root_ok [OF assms(2) pair_fst [OF f]] by simp
    ultimately show ?thesis using Root_Store Nil ok
      by (simp add: root_inv_def step_Readdir del: step.simps)
  next
    case (Cons e rest')
    from Root_Store Cons assms(1) obtain stored where
      f: "fst (getTables db (mem_state sh0)) = Inr els"
      and q: "sent sh = sent sh0 @ [''SHOW tables'']"
      and ok: "mem_ok sh"
      and s: "els = stored @ e # rest'" "tableMap (mem_state sh) = store_tables stored []"
      by (auto simp: root_inv_def)
    have ne: "list_all (\<lambda>e. snd e \<noteq> fresh sh) (index sh)"
      using ok by (auto simp: list_all_iff mem_ok_def)
    note b' = mem_ok_store [OF ok, of e]
    have "map (\<lambda>(k, a). (k, ((maps sh)(fresh sh := [])) a)) (AList.update e (fresh sh) (index sh))
            = store_tables (stored @ [e]) []"
      using store_fresh_abs [OF ne, of "maps sh" "[]" e] s(2) by (simp add: store_tables_snoc)
    then show ?thesis using Root_Store Cons f q b' s(1)
      by (auto simp: root_inv_def intro!: exI [of _ "stored @ [e]"])
  qed
next
  case (Done rep)
  with assms(1) show ?thesis by (simp add: root_inv_def)
qed (use assms(1) in \<open>auto simp: root_inv_def\<close>)

lemma coll_abs:
  "distinct (map fst idx) \<Longrightarrow> distinct (map snd idx) \<Longrightarrow> map_of idx p = Some a \<Longrightarrow>
     map (\<lambda>(k, a'). (k, (f(a := m)) a')) idx = AList.update p m (map (\<lambda>(k, a'). (k, f a')) idx)"
proof (induction idx)
  case Nil
  then show ?case by simp
next
  case (Cons e idx)
  obtain k a' where e: "e = (k, a')" by (cases e)
  show ?case
  proof (cases "k = p")
    case True
    with Cons.prems e have a: "a' = a" "a \<notin> snd ` set idx" by auto
    then have "map (\<lambda>(k, a'). (k, (f(a := m)) a')) idx = map (\<lambda>(k, a'). (k, f a')) idx"
      by (intro map_cong) (auto simp: image_iff)
    with True e a show ?thesis by simp
  next
    case False
    with Cons.prems e have p: "map_of idx p = Some a" by simp
    then have "a \<in> snd ` set idx" by (metis map_of_SomeD image_eqI snd_conv)
    with Cons.prems e have "a' \<noteq> a" by auto
    with False e Cons.IH p Cons.prems show ?thesis by simp
  qed
qed

lemma store_entries_snoc:
  "store_entries p (xs @ [e]) m =
     (let fp = Join p e in AList.update fp \<lparr>path = fp, name = e\<rparr> (store_entries p xs m))"
  by (simp add: store_entries_def)

lemma map_of_mem_state:
  "map_of (tableMap (mem_state sh)) k = map_option (maps sh) (map_of (index sh) k)"
  by (simp add: map_of_map)

lemma coll_inv_step:
  assumes "coll_inv sh0 db r p sh" "Path r \<noteq> []" "mem_ok sh0"
  shows "coll_inv sh0 db r (fst (thread_step pick (Op_Readdir db r) p sh))
           (snd (thread_step pick (Op_Readdir db r) p sh))"
proof (cases p)
  case Start
  then have eq: "sh = sh0" using assms(1) by (simp add: coll_inv_def)
  let ?q = "sent sh0 @ [recordIDsQuery (Path r)]"
  show ?thesis
  proof (cases "fst (getRecordIDs db (Path r) (mem_state sh0))")
    case (Inl e)
    have g: "getRecordIDs db (Path r) (mem_state sh0) = (Inl e, (mem_state sh0)\<lparr>issued := ?q\<rparr>)"
      using pair_fst [OF Inl] by (simp add: getRecordIDs_state)
    have t: "thread_step pick (Op_Readdir db r) Start sh0 = (Done (Listed (Inl ENOENT)), sh0\<lparr>sent := ?q\<rparr>)"
      by (simp add: assms(2) g)
    have "Readdir db r (mem_state sh0) = (Inl ENOENT, (mem_state sh0)\<lparr>issued := ?q\<rparr>)"
      using Readdir_coll_err [OF assms(2) g] .
    then show ?thesis unfolding Start eq t using assms(3)
      by (simp add: coll_inv_def step_Readdir mem_state_sent mem_ok_sent del: step.simps mem_state_simps)
  next
    case (Inr ids)
    have g: "getRecordIDs db (Path r) (mem_state sh0) = (Inr ids, (mem_state sh0)\<lparr>issued := ?q\<rparr>)"
      using pair_fst [OF Inr] by (simp add: getRecordIDs_state)
    have t: "thread_step pick (Op_Readdir db r) Start sh0 = (Coll_Fetched (render_ids ids), sh0\<lparr>sent := ?q\<rparr>)"
      by (simp add: assms(2) g)
    have "fetched_names db (Path r) = Inr (render_ids ids)"
      unfolding fetched_names_eq [of db "Path r" "mem_state sh0"] Inr by simp
    then show ?thesis unfolding Start eq t by (simp add: coll_inv_def)
  qed
next
  case (Coll_Fetched els)
  let ?q = "sent sh0 @ [recordIDsQuery (Path r)]"
  from Coll_Fetched assms(1) have f: "fetched_names db (Path r) = Inr els"
    and sh: "sh = sh0\<lparr>sent := ?q\<rparr>" by (auto simp: coll_inv_def)
  obtain ids where ids: "fst (getRecordIDs db (Path r) (mem_state sh0)) = Inr ids" "els = render_ids ids"
    using f unfolding fetched_names_eq [of db "Path r" "mem_state sh0"] by (auto split: sum.splits)
  have g: "getRecordIDs db (Path r) (mem_state sh0) = (Inr ids, (mem_state sh0)\<lparr>issued := ?q\<rparr>)"
    using pair_fst [OF ids(1)] by (simp add: getRecordIDs_state)
  show ?thesis
  proof (cases "map_of (index sh0) (Path r)")
    case None
    then have "map_of (tableMap (mem_state sh0)) (Path r) = None" by (simp add: map_of_mem_state del: mem_state_simps)
    from Readdir_coll_panic [OF assms(2) g this]
    have "Readdir db r (mem_state sh0) = (Inl Panic, (mem_state sh0)\<lparr>issued := ?q\<rparr>)" .
    moreover have "thread_step pick (Op_Readdir db r) (Coll_Fetched els) sh = (Done (Listed (Inl Panic)), sh)"
      using None sh by simp
    ultimately show ?thesis unfolding Coll_Fetched using sh assms(3)
      by (simp add: coll_inv_def step_Readdir mem_state_sent mem_ok_sent del: step.simps mem_state_simps)
  next
    case (Some a)
    then have "thread_step pick (Op_Readdir db r) (Coll_Fetched els) sh = (Coll_Loaded a els, sh)"
      using sh by simp
    then show ?thesis unfolding Coll_Fetched using f sh Some by (simp add: coll_inv_def)
  qed
next
  case (Coll_Loaded a els)
  with assms(1) show ?thesis
    by (auto simp: coll_inv_def intro!: exI [of _ "maps sh0 a"])
next
  case (Coll_Range a els todo seen)
  from Coll_Range assms(1) obtain m where
    f: "fetched_names db (Path r) = Inr els" and l: "map_of (index sh0) (Path r) = Some a"
    and sh: "sh = sh0\<lparr>sent := sent sh0 @ [recordIDsQuery (Path r)], maps := (maps sh0)(a := m)\<rparr>"
    and k: "fst ` set m \<subseteq> set todo"
    by (auto simp: coll_inv_def)
  have ma: "maps sh a = m" using sh by simp
  from range_next_cases [of pick todo seen m] show ?thesis
  proof (elim disjE exE conjE)
    assume "range_next pick todo seen m = Disabled"
    then show ?thesis unfolding Coll_Range using assms(1) Coll_Range ma by simp
  next
    assume "range_next pick todo seen m = Finish" "todo = []"
    moreover from this k have "m = []" by (auto dest!: keys_empty)
    ultimately show ?thesis unfolding Coll_Range using f l sh ma
      by (auto simp: coll_inv_def store_entries_def)
  next
    fix k' assume "range_next pick todo seen m = Skip (removeAll k' todo)" "k' \<notin> fst ` set m"
    then show ?thesis unfolding Coll_Range using f l sh ma k
      by (auto simp: coll_inv_def)
  next
    fix k' seen' assume "range_next pick todo seen m = Callback k' (removeAll k' todo) seen'" "k' \<in> set todo"
    then show ?thesis unfolding Coll_Range using f l sh ma k
      by (auto simp: coll_inv_def)
  next
    fix k' seen' assume "range_next pick todo seen m = Callback k' todo seen'" "map_of m k' \<noteq> None"
    then show ?thesis unfolding Coll_Range using f l sh ma k
      by (auto simp: coll_inv_def)
  qed
next
  case (Coll_Delete a els todo seen k)
  from Coll_Delete assms(1) obtain m where
    f: "fetched_names db (Path r) = Inr els" and l: "map_of (index sh0) (Path r) = Some a"
    and sh: "sh = sh0\<lparr>sent := sent sh0 @ [recordIDsQuery (Path r)], maps := (maps sh0)(a := m)\<rparr>"
    and k: "fst ` set m \<subseteq> insert k (set todo)"
    by (auto simp: coll_inv_def)
  have "fst ` set (AList.delete k m) \<subseteq> set todo" using k by (auto simp: delete_keys_set)
  then show ?thesis unfolding Coll_Delete using f l sh
    by (auto simp: coll_inv_def intro!: exI [of _ "AList.delete k m"])
next
  case (Coll_Store a els rest)
  let ?q = "sent sh0 @ [recordIDsQuery (Path r)]"
  from Coll_Store assms(1) obtain stored where
    f: "fetched_names db (Path r) = Inr els" and l: "map_of (index sh0) (Path r) = Some a"
    and s: "els = stored @ rest"
    and sh: "sh = sh0\<lparr>sent := ?q, maps := (maps sh0)(a := store_entries (Path r) stored [])\<rparr>"
    by (auto simp: coll_inv_def)
  show ?thesis
  proof (cases rest)
    case Nil
    obtain ids where ids: "fst (getRecordIDs db (Path r) (mem_state sh0)) = Inr ids" "els = render_ids ids"
      using f unfolding fetched_names_eq [of db "Path r" "mem_state sh0"] by (auto split: sum.splits)
    have g: "getRecordIDs db (Path r) (mem_state sh0) = (Inr ids, (mem_state sh0)\<lparr>issued := ?q\<rparr>)"
      using pair_fst [OF ids(1)] by (simp add: getRecordIDs_state)
    have lm: "map_of (tableMap (mem_state sh0)) (Path r) = Some (maps sh0 a)"
      using l by (simp add: map_of_mem_state del: mem_state_simps)
    have d: "distinct (map fst (index sh0))" "distinct (map snd (index sh0))"
      using assms(3) by (simp_all add: mem_ok_def)
    have "mem_state sh = snd (Readdir db r (mem_state sh0))"
      using Readdir_coll_ok [OF assms(2) g lm] sh s Nil ids(2) coll_abs [OF d l]
      by (simp add: mem_state_def)
    moreover have "fst (Readdir db r (mem_state sh0)) = Inr (dir_list fileMode els)"
      using Readdir_coll_ok [OF assms(2) g lm] ids(2) by simp
    moreover have "mem_ok sh" using sh assms(3) by (simp add: mem_ok_def)
    ultimately show ?thesis unfolding Coll_Store Nil
      by (simp add: coll_inv_def step_Readdir del: step.simps mem_state_simps)
  next
    case (Cons e rest')
    have "thread_step pick (Op_Readdir db r) (Coll_Store a els (e # rest')) sh
            = (Coll_Store a els rest',
               sh0\<lparr>sent := ?q, maps := (maps sh0)(a := store_entries (Path r) (stored @ [e]) [])\<rparr>)"
      using sh by (simp add: store_entries_snoc Let_def)
    then show ?thesis unfolding Coll_Store Cons using f l s Cons
      by (auto simp: coll_inv_def intro!: exI [of _ "stored @ [e]"])
  qed
next
  case (Done rep)
  with assms(1) show ?thesis by (simp add: coll_inv_def)
qed (use assms(1) in \<open>auto simp: coll_inv_def\<close>)

lemma solo_snoc: "solo (picks @ [k]) x ps = thread_step k x (fst (solo picks x ps)) (snd (solo picks x ps))"
  by (simp add: solo_def)

lemma solo_append: "solo (ps1 @ ps2) x ps = solo ps2 x (solo ps1 x ps)"
  by (simp add: solo_def)

lemma solo_inv_step:
  assumes "mem_ok sh0" "solo_inv sh0 x p sh"
  shows "solo_inv sh0 x (fst (thread_step k x p sh)) (snd (thread_step k x p sh))"
proof (cases x)
  case (Op_Opendir r)
  with assms(2) show ?thesis by (auto simp: solo_inv_def)
next
  case (Op_Lookup r nm)
  show ?thesis
  proof (cases p)
    case Start
    with assms(2) Op_Lookup show ?thesis
      by (auto simp: solo_inv_def Lookup_def Let_def map_of_map split: option.splits)
  next
    case (Look_Loaded a)
    with assms(2) Op_Lookup show ?thesis
      by (auto simp: solo_inv_def Lookup_def Let_def map_of_map split: option.splits)
  next
    case (Done rep)
    with assms(2) Op_Lookup show ?thesis by (auto simp: solo_inv_def)
  qed (use assms(2) Op_Lookup in \<open>auto simp: solo_inv_def\<close>)
next
  case (Op_Readdir db r)
  show ?thesis
  proof (cases "Path r = []")
    case True
    with assms Op_Readdir root_inv_step [of sh0 db r p sh k] show ?thesis
      by (simp add: solo_inv_def)
  next
    case False
    with assms Op_Readdir coll_inv_step [of sh0 db r p sh k] show ?thesis
      by (simp add: solo_inv_def)
  qed
qed

lemma solo_inv_solo:
  assumes "mem_ok sh0"
  shows "solo_inv sh0 x (fst (solo picks x (Start, sh0))) (snd (solo picks x (Start, sh0)))"
proof (induction picks rule: rev_induct)
  case Nil
  show ?case
    by (cases x) (auto simp: solo_def solo_inv_def root_inv_def coll_inv_def)
next
  case (snoc k picks)
  then show ?case unfolding solo_snoc by (rule solo_inv_step [OF assms])
qed

lemma solo_refines:
  assumes "mem_ok sh0" "solo picks x (Start, sh0) = (Done rep, sh')"
  shows "step x (mem_state sh0) = (rep, mem_state sh') \<and> mem_ok sh'"
proof -
  have inv: "solo_inv sh0 x (Done rep) sh'"
    using solo_inv_solo [OF assms(1), of x picks] assms(2) by simp
  show ?thesis
  proof (cases x)
    case (Op_Opendir r)
    with inv assms(1) show ?thesis by (auto simp: solo_inv_def Opendir_def)
  next
    case (Op_Lookup r nm)
    with inv assms(1) Lookup_state [of r nm "mem_state sh0"] show ?thesis
      by (cases "Lookup r nm (mem_state sh0)") (auto simp: solo_inv_def)
  next
    case (Op_Readdir db r)
    with inv show ?thesis
      by (cases "Path r = []") (auto simp: solo_inv_def root_inv_def coll_inv_def simp del: step.simps)
  qed
qed

lemma solo_Cons: "solo (k # picks) x (p, sh) = solo picks x (thread_step k x p sh)"
  by (simp add: solo_def)

lemma solo_Nil: "solo [] x ps = ps"
  by (simp add: solo_def)

lemma length_removeAll_less: "k \<in> set xs \<Longrightarrow> length (removeAll k xs) < length xs"
  by (induction xs) (auto simp: less_Suc_eq_le length_removeAll_less_eq)

lemma root_range_finishes:
  "\<exists>picks sh'. solo picks (Op_Readdir db r) (Root_Range els todo seen, sh) = (Root_Store els els, sh')"
proof (induction "length todo" arbitrary: todo seen sh rule: less_induct)
  case less
  show ?case
  proof (cases todo)
    case Nil
    have "solo [None] (Op_Readdir db r) (Root_Range els todo seen, sh) = (Root_Store els els, sh)"
      by (simp add: solo_Cons solo_Nil Nil range_next_def)
    then show ?thesis by blast
  next
    case (Cons k t)
    let ?todo' = "removeAll k todo"
    have shorter: "length ?todo' < length todo"
      by (rule length_removeAll_less) (simp add: Cons)
    show ?thesis
    proof (cases "map_of (index sh) k")
      case None
      have st: "thread_step (Some k) (Op_Readdir db r) (Root_Range els todo seen) sh
                  = (Root_Range els ?todo' seen, sh)"
        using None by (simp add: range_next_def Cons)
      from less [OF shorter, of seen sh] obtain picks sh' where
        "solo picks (Op_Readdir db r) (Root_Range els ?todo' seen, sh) = (Root_Store els els, sh')"
        by blast
      then have "solo (Some k # picks) (Op_Readdir db r) (Root_Range els todo seen, sh) = (Root_Store els els, sh')"
        by (simp only: solo_Cons st)
      then show ?thesis by blast
    next
      case (Some v)
      let ?sh1 = "sh\<lparr>index := AList.delete k (index sh)\<rparr>"
      have st: "thread_step (Some k) (Op_Readdir db r) (Root_Range els todo seen) sh
                  = (Root_Delete els ?todo' (k # seen) k, sh)"
        using Some by (simp add: range_next_def Cons)
      have st2: "thread_step None (Op_Readdir db r) (Root_Delete els ?todo' (k # seen) k) sh
                  = (Root_Range els ?todo' (k # seen), ?sh1)"
        by simp
      from less [OF shorter, of "k # seen" ?sh1] obtain picks sh' where
        "solo picks (Op_Readdir db r) (Root_Range els ?todo' (k # seen), ?sh1) = (Root_Store els els, sh')"
        by blast
      then have "solo (Some k # None # picks) (Op_Readdir db r) (Root_Range els todo seen, sh)
                   = (Root_Store els els, sh')"
        by (simp only: solo_Cons st st2)
      then show ?thesis by blast
    qed
  qed
qed

lemma coll_range_finishes:
  "\<exists>picks sh'. solo picks (Op_Readdir db r) (Coll_Range a els todo seen, sh) = (Coll_Store a els els, sh')"
proof (induction "length todo" arbitrary: todo seen sh rule: less_induct)
  case less
  show ?case
  proof (cases todo)
    case Nil
    have "solo [None] (Op_Readdir db r) (Coll_Range a els todo seen, sh) = (Coll_Store a els els, sh)"
      by (simp add: solo_Cons solo_Nil Nil range_next_def)
    then show ?thesis by blast
  next
    case (Cons k t)
    let ?todo' = "removeAll k todo"
    have shorter: "length ?todo' < length todo"
      by (rule length_removeAll_less) (simp add: Cons)
    show ?thesis
    proof (cases "map_of (maps sh a) k")
      case None
      have st: "thread_step (Some k) (Op_Readdir db r) (Coll_Range a els todo seen) sh
                  = (Coll_Range a els ?todo' seen, sh)"
        using None by (simp add: range_next_def Cons)
      from less [OF shorter, of seen sh] obtain picks sh' where
        "solo picks (Op_Readdir db r) (Coll_Range a els ?todo' seen, sh) = (Coll_Store a els els, sh')"
        by blast
      then have "solo (Some k # picks) (Op_Readdir db r) (Coll_Range a els todo seen, sh) = (Coll_Store a els els, sh')"
        by (simp only: solo_Cons st)
      then show ?thesis by blast
    next
      case (Some v)
      let ?sh1 = "sh\<lparr>maps := (maps sh)(a := AList.delete k (maps sh a))\<rparr>"
      have st: "thread_step (Some k) (Op_Readdir db r) (Coll_Range a els todo seen) sh
                  = (Coll_Delete a els ?todo' (k # seen) k, sh)"
        using Some by (simp add: range_next_def Cons)
      have st2: "thread_step None (Op_Readdir db r) (Coll_Delete a els ?todo' (k # seen) k) sh
                  = (Coll_Range a els ?todo' (k # seen), ?sh1)"
        by simp
      from less [OF shorter, of "k # seen" ?sh1] obtain picks sh' where
        "solo picks (Op_Readdir db r) (Coll_Range a els ?todo' (k # seen), ?sh1) = (Coll_Store a els els, sh')"
        by blast
      then have "solo (Some k # None # picks) (Op_Readdir db r) (Coll_Range a els todo seen, sh)
                   = (Coll_Store a els els, sh')"
        by (simp only: solo_Cons st st2)
      then show ?thesis by blast
    qed
  qed
qed

lemma root_store_finishes:
  "\<exists>picks rep sh'. solo picks (Op_Readdir db r) (Root_Store els rest, sh) = (Done rep, sh')"
proof (induction rest arbitrary: sh)
  case Nil
  have "solo [None] (Op_Readdir db r) (Root_Store els [], sh) = (Done (Listed (Inr (dir_list dirMode els))), sh)"
    by (simp add: solo_Cons solo_Nil)
  then show ?case by blast
next
  case (Cons e rest)
  let ?sh1 = "sh\<lparr>index := AList.update e (fresh sh) (index sh),
                  maps := (maps sh)(fresh sh := []), fresh := Suc (fresh sh)\<rparr>"
  from Cons [of ?sh1] obtain picks rep sh' where
    "solo picks (Op_Readdir db r) (Root_Store els rest, ?sh1) = (Done rep, sh')" by blast
  then have "solo (None # picks) (Op_Readdir db r) (Root_Store els (e # rest), sh) = (Done rep, sh')"
    by (simp add: solo_Cons)
  then show ?case by blast
qed

lemma coll_store_finishes:
  "\<exists>picks rep sh'. solo picks (Op_Readdir db r) (Coll_Store a els rest, sh) = (Done rep, sh')"
proof (induction rest arbitrary: sh)
  case Nil
  have "solo [None] (Op_Readdir db r) (Coll_Store a els [], sh) = (Done (Listed (Inr (dir_list fileMode els))), sh)"
    by (simp add: solo_Cons solo_Nil)
  then show ?case by blast
next
  case (Cons e rest)
  let ?sh1 = "sh\<lparr>maps := (maps sh)(a := (let fp = Join (Path r) e
                                   in AList.update fp \<lparr>path = fp, name = e\<rparr> (maps sh a)))\<rparr>"
  from Cons [of ?sh1] obtain picks rep sh' where
    "solo picks (Op_Readdir db r) (Coll_Store a els rest, ?sh1) = (Done rep, sh')" by blast
  then have "solo (None # picks) (Op_Readdir db r) (Coll_Store a els (e # rest), sh) = (Done rep, sh')"
    by (simp add: solo_Cons)
  then show ?case by blast
qed

lemma solo_returns: "\<exists>picks rep sh'. solo picks x (Start, sh) = (Done rep, sh')"
proof (cases x)
  case (Op_Opendir r)
  have "solo [None] x (Start, sh) = (Done (Opened (Inr ())), sh)"
    by (simp add: Op_Opendir solo_Cons solo_Nil)
  then show ?thesis by blast
next
  case (Op_Lookup r nm)
  obtain p1 sh1 where s1: "thread_step None x Start sh = (p1, sh1)" by (cases "thread_step None x Start sh")
  obtain p2 sh2 where s2: "thread_step None x p1 sh1 = (p2, sh2)" by (cases "thread_step None x p1 sh1")
  have "\<exists>rep. p2 = Done rep"
    using s1 s2 unfolding Op_Lookup by (auto split: option.splits if_splits)
  then obtain rep where "p2 = Done rep" by blast
  then have "solo [None, None] x (Start, sh) = (Done rep, sh2)"
    using s1 s2 by (simp add: solo_Cons solo_Nil)
  then show ?thesis by blast
next
  case (Op_Readdir db r)
  obtain p1 sh1 where s1: "thread_step None x Start sh = (p1, sh1)" by (cases "thread_step None x Start sh")
  have c: "(\<exists>rep. p1 = Done rep) \<or> (\<exists>els. p1 = Root_Fetched els) \<or> (\<exists>els. p1 = Coll_Fetched els)"
    using s1 unfolding Op_Readdir by (auto split: prod.splits sum.splits if_splits)
  have one: "solo [None] x (Start, sh) = (p1, sh1)" using s1 by (simp add: solo_Cons solo_Nil)
  from c show ?thesis
  proof (elim disjE exE)
    fix rep assume "p1 = Done rep"
    with one show ?thesis by blast
  next
    fix els assume p1: "p1 = Root_Fetched els"
    have two: "solo [None] x (p1, sh1) = (Root_Range els (map fst (index sh1)) [], sh1)"
      by (simp add: p1 Op_Readdir solo_Cons solo_Nil)
    from root_range_finishes [of db r els "map fst (index sh1)" "[]" sh1] obtain ps3 sh3 where
      three: "solo ps3 x (Root_Range els (map fst (index sh1)) [], sh1) = (Root_Store els els, sh3)"
      unfolding Op_Readdir by blast
    from root_store_finishes [of db r els els sh3] obtain ps4 rep sh4 where
      four: "solo ps4 x (Root_Store els els, sh3) = (Done rep, sh4)"
      unfolding Op_Readdir by blast
    have "solo ([None] @ [None] @ ps3 @ ps4) x (Start, sh) = (Done rep, sh4)"
      by (simp only: solo_append one two three four)
    then show ?thesis by blast
  next
    fix els assume p1: "p1 = Coll_Fetched els"
    obtain p2 sh2 where s2: "thread_step None x p1 sh1 = (p2, sh2)" by (cases "thread_step None x p1 sh1")
    have two: "solo [None] x (p1, sh1) = (p2, sh2)" using s2 by (simp add: solo_Cons solo_Nil)
    have c2: "(\<exists>rep. p2 = Done rep) \<or> (\<exists>a. p2 = Coll_Loaded a els)"
      using s2 unfolding Op_Readdir p1 by (auto split: option.splits)
    from c2 show ?thesis
    proof (elim disjE exE)
      fix rep assume "p2 = Done rep"
      with one two have "solo ([None] @ [None]) x (Start, sh) = (Done rep, sh2)"
        by (simp only: solo_append)
      then show ?thesis by blast
    next
      fix a assume p2: "p2 = Coll_Loaded a els"
      have three: "solo [None] x (p2, sh2) = (Coll_Range a els (map fst (maps sh2 a)) [], sh2)"
        by (simp add: p2 Op_Readdir solo_Cons solo_Nil)
      from coll_range_finishes [of db r a els "map fst (maps sh2 a)" "[]" sh2] obtain ps4 sh4 where
        four: "solo ps4 x (Coll_Range a els (map fst (maps sh2 a)) [], sh2) = (Coll_Store a els els, sh4)"
        unfolding Op_Readdir by blast
      from coll_store_finishes [of db r a els els sh4] obtain ps5 rep sh5 where
        five: "solo ps5 x (Coll_Store a els els, sh4) = (Done rep, sh5)"
        unfolding Op_Readdir by blast
      have "solo ([None] @ [None] @ [None] @ ps4 @ ps5) x (Start, sh) = (Done rep, sh5)"
        by (simp only: solo_append one two three four five)
      then show ?thesis by blast
    qed
  qed
qed

lemma served_alone:
  assumes "mem_ok sh"
  shows "\<exists>picks sh'. solo picks x (Start, sh) = (Done (fst (step x (mem_state sh))), sh')
            \<and> mem_state sh' = snd (step x (mem_state sh)) \<and> mem_ok sh'"
proof -
  obtain picks rep sh' where s: "solo picks x (Start, sh) = (Done rep, sh')"
    using solo_returns by blast
  from solo_refines [OF assms s] s show ?thesis by (metis fst_conv snd_conv)
qed

lemma execute_append: "execute (s1 @ s2) c = execute s2 (execute s1 c)"
  by (simp add: execute_def)

lemma thread_step_Done: "thread_step k x (Done rep) sh = (Done rep, sh)"
  by (cases x) simp_all

lemma solo_Done: "solo picks x (Done rep, sh) = (Done rep, sh)"
  by (induction picks) (simp_all add: solo_Nil solo_Cons thread_step_Done)

lemma crashed_update:
  assumes "\<not> crashed \<lparr>threads = ts, mem = sh\<rparr>" "i < length ts"
  shows "crashed \<lparr>threads = ts[i := (x, p)], mem = sh'\<rparr> \<longleftrightarrow> fault_pc p"
proof
  assume "crashed \<lparr>threads = ts[i := (x, p)], mem = sh'\<rparr>"
  then obtain t where t: "t \<in> set (ts[i := (x, p)])" "fault_pc (snd t)"
    by (auto simp: crashed_def list_ex_iff)
  then have "t = (x, p) \<or> t \<in> set ts"
    using set_update_subset_insert [of ts i "(x, p)"] by auto
  with t(2) assms(1) show "fault_pc p" by (auto simp: crashed_def list_ex_iff)
next
  assume "fault_pc p"
  moreover have "(x, p) \<in> set (ts[i := (x, p)])" using assms(2) by (simp add: set_update_memI)
  ultimately show "crashed \<lparr>threads = ts[i := (x, p)], mem = sh'\<rparr>"
    by (force simp: crashed_def list_ex_iff)
qed

lemma execute_alone:
  assumes "\<not> crashed \<lparr>threads = ts, mem = sh\<rparr>" "i < length ts" "ts ! i = (x, p)"
  shows "execute (map (Pair i) picks) \<lparr>threads = ts, mem = sh\<rparr>
           = \<lparr>threads = ts[i := (x, fst (solo picks x (p, sh)))], mem = snd (solo picks x (p, sh))\<rparr>"
proof (induction picks rule: rev_induct)
  case Nil
  show ?case using assms(3) [symmetric] by (simp add: execute_def solo_Nil)
next
  case (snoc k picks)
  let ?p1 = "fst (solo picks x (p, sh))" and ?sh1 = "snd (solo picks x (p, sh))"
  let ?c1 = "\<lparr>threads = ts[i := (x, ?p1)], mem = ?sh1\<rparr>"
  have e1: "execute (map (Pair i) (picks @ [k])) \<lparr>threads = ts, mem = sh\<rparr> = sched_step (i, k) ?c1"
    using snoc by (simp add: execute_def)
  show ?case
  proof (cases "fault_pc ?p1")
    case True
    then obtain rep where rep: "?p1 = Done rep" by (cases ?p1) (auto simp: fault_pc_def)
    have "crashed ?c1" using crashed_update [OF assms(1,2)] True by simp
    then have "sched_step (i, k) ?c1 = ?c1" by (simp add: sched_step_def)
    moreover have "thread_step k x ?p1 ?sh1 = (?p1, ?sh1)"
      using thread_step_Done [of k x rep ?sh1] rep by simp
    then have "solo (picks @ [k]) x (p, sh) = (?p1, ?sh1)"
      unfolding solo_snoc .
    ultimately show ?thesis unfolding e1 by simp
  next
    case False
    then have "\<not> crashed ?c1" using crashed_update [OF assms(1,2)] by simp
    then show ?thesis unfolding e1 solo_snoc using assms(2)
      by (simp add: sched_step_def split: prod.splits)
  qed
qed

lemma crashed_pre_Start:
  "crashed \<lparr>threads = pre @ map (\<lambda>x. (x, Start)) xs, mem = sh\<rparr> \<longleftrightarrow> crashed \<lparr>threads = pre, mem = sh'\<rparr>"
  by (auto simp: crashed_def list_ex_iff fault_pc_def)

lemma crashed_pre_Done:
  "crashed \<lparr>threads = pre @ [(x, Done rep)], mem = sh\<rparr>
     \<longleftrightarrow> crashed \<lparr>threads = pre, mem = sh'\<rparr> \<or> faulted rep"
  by (auto simp: crashed_def list_ex_iff fault_pc_def)

lemma run_as_schedule:
  assumes "mem_ok sh" "\<not> crashed \<lparr>threads = pre, mem = sh\<rparr>"
  shows "\<exists>sched. map snd (threads (execute sched \<lparr>threads = pre @ map (\<lambda>x. (x, Start)) xs, mem = sh\<rparr>))
                    = map snd pre @ map Done (fst (run xs (mem_state sh)))
                        @ replicate (length xs - length (fst (run xs (mem_state sh)))) Start
               \<and> mem_state (mem (execute sched \<lparr>threads = pre @ map (\<lambda>x. (x, Start)) xs, mem = sh\<rparr>))
                    = snd (run xs (mem_state sh))"
  using assms
proof (induction xs arbitrary: pre sh)
  case Nil
  have "execute [] \<lparr>threads = pre @ map (\<lambda>x. (x, Start)) [], mem = sh\<rparr> = \<lparr>threads = pre, mem = sh\<rparr>"
    by (simp add: execute_def)
  then have "map snd (threads (execute [] \<lparr>threads = pre @ map (\<lambda>x. (x, Start)) [], mem = sh\<rparr>))
                    = map snd pre @ map Done (fst (run [] (mem_state sh)))
                        @ replicate (length ([]::op list) - length (fst (run [] (mem_state sh)))) Start
               \<and> mem_state (mem (execute [] \<lparr>threads = pre @ map (\<lambda>x. (x, Start)) [], mem = sh\<rparr>))
                    = snd (run [] (mem_state sh))"
    by simp
  then show ?case by blast
next
  case (Cons x xs)
  let ?ts = "pre @ map (\<lambda>x. (x, Start)) (x # xs)"
  let ?c = "\<lparr>threads = ?ts, mem = sh\<rparr>"
  let ?i = "length pre"
  define rep where "rep = fst (step x (mem_state sh))"
  have nc: "\<not> crashed ?c" using Cons.prems(2) crashed_pre_Start [of pre "x # xs" sh sh] by simp
  have i: "?i < length ?ts" "?ts ! ?i = (x, Start)" by (simp_all add: nth_append)
  obtain picks sh1 where s: "solo picks x (Start, sh) = (Done rep, sh1)"
    and ms: "mem_state sh1 = snd (step x (mem_state sh))" and ok1: "mem_ok sh1"
    using served_alone [OF Cons.prems(1), of x] unfolding rep_def by blast
  have upd: "?ts[?i := (x, Done rep)] = (pre @ [(x, Done rep)]) @ map (\<lambda>x. (x, Start)) xs"
    by (simp add: list_update_append)
  have e1: "execute (map (Pair ?i) picks) ?c
              = \<lparr>threads = (pre @ [(x, Done rep)]) @ map (\<lambda>x. (x, Start)) xs, mem = sh1\<rparr>"
    using execute_alone [OF nc i, of picks] s upd by simp
  have st: "step x (mem_state sh) = (rep, mem_state sh1)"
    using ms by (simp add: prod_eq_iff rep_def del: step.simps)
  show ?case
  proof (cases "faulted rep")
    case True
    have r: "run (x # xs) (mem_state sh) = ([rep], mem_state sh1)"
      using st True by (simp del: step.simps)
    have "map snd (threads (execute (map (Pair ?i) picks) ?c))
            = map snd pre @ map Done (fst (run (x # xs) (mem_state sh)))
                @ replicate (length (x # xs) - length (fst (run (x # xs) (mem_state sh)))) Start
          \<and> mem_state (mem (execute (map (Pair ?i) picks) ?c)) = snd (run (x # xs) (mem_state sh))"
      unfolding e1 r by (simp add: o_def map_replicate_const)
    then show ?thesis by blast
  next
    case False
    have nc1: "\<not> crashed \<lparr>threads = pre @ [(x, Done rep)], mem = sh1\<rparr>"
      using False Cons.prems(2) crashed_pre_Done [of pre x rep sh1 sh] by simp
    from Cons.IH [OF ok1 nc1] obtain sched where
      ih: "map snd (threads (execute sched \<lparr>threads = (pre @ [(x, Done rep)]) @ map (\<lambda>x. (x, Start)) xs, mem = sh1\<rparr>))
             = map snd (pre @ [(x, Done rep)]) @ map Done (fst (run xs (mem_state sh1)))
                 @ replicate (length xs - length (fst (run xs (mem_state sh1)))) Start"
        "mem_state (mem (execute sched \<lparr>threads = (pre @ [(x, Done rep)]) @ map (\<lambda>x. (x, Start)) xs, mem = sh1\<rparr>))
             = snd (run xs (mem_state sh1))"
      by blast
    obtain reps s2 where r2: "run xs (mem_state sh1) = (reps, s2)" by (cases "run xs (mem_state sh1)")
    have r: "run (x # xs) (mem_state sh) = (rep # reps, s2)"
      using st False r2 by (simp del: step.simps)
    have "map snd (threads (execute (map (Pair ?i) picks @ sched) ?c))
            = map snd pre @ map Done (fst (run (x # xs) (mem_state sh)))
                @ replicate (length (x # xs) - length (fst (run (x # xs) (mem_state sh)))) Start
          \<and> mem_state (mem (execute (map (Pair ?i) picks @ sched) ?c)) = snd (run (x # xs) (mem_state sh))"
      unfolding execute_append e1 r using ih r2 by simp
    then show ?thesis by blast
  qed
qed

lemma launch_mem: "mem_state (mem (launch xs)) = init" "mem_ok (mem (launch xs))"
  by (simp_all add: launch_def mem_state_def init_def mem_ok_def)

lemma run_is_a_schedule:
  "\<exists>sched. map snd (threads (execute sched (launch xs)))
              = map Done (fst (run xs init)) @ replicate (length xs - length (fst (run xs init))) Start
         \<and> mem_state (mem (execute sched (launch xs))) = snd (run xs init)"
proof -
  have nc: "\<not> crashed \<lparr>threads = [], mem = mem (launch xs)\<rparr>" by (simp add: crashed_def)
  have l: "launch xs = \<lparr>threads = [] @ map (\<lambda>x. (x, Start)) xs, mem = mem (launch xs)\<rparr>"
    by (simp add: launch_def)
  from run_as_schedule [OF launch_mem(2) nc, where xs = xs] show ?thesis
    unfolding l [symmetric] launch_mem(1) by simp
qed

lemma run_state_after:
  "\<not> list_ex faulted (fst (run xs s)) \<Longrightarrow>
     snd (run xs s) = foldl (\<lambda>s x. snd (step x s)) s xs \<and> length (fst (run xs s)) = length xs"
proof (induction xs arbitrary: s)
  case Nil
  then show ?case by simp
next
  case (Cons x xs)
  obtain rep s1 where st: "step x s = (rep, s1)" by (cases "step x s")
  obtain reps s2 where r: "run xs s1 = (reps, s2)" by (cases "run xs s1")
  from Cons.prems st r have nf: "\<not> faulted rep" "\<not> list_ex faulted (fst (run xs s1))"
    by (auto split: if_splits)
  from Cons.IH [OF nf(2)] st r nf(1) show ?case by simp
qed

section \<open>The claims\<close>

subsection \<open>Lookup\<close>

text \<open>
  C1, as the claim states it, fails for the entry set: in the sample mount, after a
  root listing, a listing of \<^verbatim>\<open>users\<close> and another root listing, the entry set
  most recently listed for \<^verbatim>\<open>users\<close> holds \<^verbatim>\<open>2.sql\<close>, and the lookup of \<^verbatim>\<open>2.sql\<close>
  in \<^verbatim>\<open>users\<close> misses.
\<close>

theorem lookup_misses_last_listed_entry:
  "Path users_node = ''users''
   \<and> ''2.sql'' \<in> listed_entries ''users''
        (rev [Op_Readdir db_shop root_node, Op_Readdir db_shop users_node, Op_Readdir db_shop root_node])
   \<and> miss (Lookup users_node ''2.sql''
        (state_after [Op_Readdir db_shop root_node, Op_Readdir db_shop users_node, Op_Readdir db_shop root_node]))"
  by code_simp

text \<open>
  C1, amended. After every sequence of requests served from the empty index, a
  lookup from the root hits for a name exactly when the name is in the collection
  set fetched by the latest successful root listing, and a lookup from a
  collection directory hits for a file name (a name without a slash) exactly when
  the name is in the entry set most recently rebuilt for that collection, where a
  successful listing of the collection rebuilds it to the names it fetched and a
  successful root listing rebuilds it to the empty set. A lookup ends in a hit or
  in the not-found error, and it leaves the state, with its log of issued
  queries, as it was: no query is sent to the database. The same holds of every
  step of a lookup served concurrently with other requests: it leaves the shared
  memory as it was.
\<close>

theorem Lookup_resolves_against_rebuilt_index:
  "(Path r = [] \<longrightarrow> (hit (Lookup r n (state_after xs)) \<longleftrightarrow> n \<in> rebuilt_collections (rev xs)))
 \<and> (Path r \<noteq> [] \<and> CHR ''/'' \<notin> set n \<longrightarrow>
       (hit (Lookup r n (state_after xs)) \<longleftrightarrow> n \<in> rebuilt_entries (Path r) (rev xs)))
 \<and> (hit (Lookup r n (state_after xs)) \<or> miss (Lookup r n (state_after xs)))
 \<and> snd (Lookup r n (state_after xs)) = state_after xs
 \<and> snd (thread_step pick (Op_Lookup r n) p sh) = sh"
  using collections_state_after [of xs] entries_state_after [of r n xs]
  by (simp add: hit_root hit_or_miss Lookup_state Lookup_thread_memory)

text \<open>
  The sample mount after a root listing and a listing of \<^verbatim>\<open>users\<close>: \<^verbatim>\<open>users\<close>
  resolves from the root, \<^verbatim>\<open>2.sql\<close> resolves in \<^verbatim>\<open>users\<close> and \<^verbatim>\<open>4.sql\<close> does not;
  after one more root listing \<^verbatim>\<open>2.sql\<close> does not resolve either.
\<close>

theorem Lookup_resolves_against_rebuilt_index_witness:
  "Path root_node = []
   \<and> hit (Lookup root_node ''users'' (state_after [Op_Readdir db_shop root_node, Op_Readdir db_shop users_node]))
   \<and> ''users'' \<in> rebuilt_collections (rev [Op_Readdir db_shop root_node, Op_Readdir db_shop users_node])
   \<and> Path users_node \<noteq> [] \<and> CHR ''/'' \<notin> set ''2.sql''
   \<and> ''2.sql'' \<in> rebuilt_entries (Path users_node) (rev [Op_Readdir db_shop root_node, Op_Readdir db_shop users_node])
   \<and> hit (Lookup users_node ''2.sql'' (state_after [Op_Readdir db_shop root_node, Op_Readdir db_shop users_node]))
   \<and> ''4.sql'' \<notin> rebuilt_entries (Path users_node) (rev [Op_Readdir db_shop root_node, Op_Readdir db_shop users_node])
   \<and> miss (Lookup users_node ''4.sql'' (state_after [Op_Readdir db_shop root_node, Op_Readdir db_shop users_node]))
   \<and> rebuilt_entries (Path users_node)
        (rev [Op_Readdir db_shop root_node, Op_Readdir db_shop users_node, Op_Readdir db_shop root_node]) = {}
   \<and> \<not> hit (Lookup users_node ''2.sql''
        (state_after [Op_Readdir db_shop root_node, Op_Readdir db_shop users_node, Op_Readdir db_shop root_node]))"
proof -
  let ?h = "[Op_Readdir db_shop root_node, Op_Readdir db_shop users_node]"
  let ?h3 = "[Op_Readdir db_shop root_node, Op_Readdir db_shop users_node, Op_Readdir db_shop root_node]"
  have h1: "Path root_node = []" by code_simp
  have h2: "''users'' \<in> rebuilt_collections (rev ?h)" by code_simp
  have h3: "Path users_node \<noteq> []" by code_simp
  have h4: "CHR ''/'' \<notin> set ''2.sql''" "CHR ''/'' \<notin> set ''4.sql''" by code_simp+
  have h5: "''2.sql'' \<in> rebuilt_entries (Path users_node) (rev ?h)" by code_simp
  have h6: "''4.sql'' \<notin> rebuilt_entries (Path users_node) (rev ?h)" by code_simp
  have h7: "rebuilt_entries (Path users_node) (rev ?h3) = {}" by code_simp
  have c1: "hit (Lookup root_node ''users'' (state_after ?h))"
    using h1 h2 Lookup_resolves_against_rebuilt_index [of root_node "''users''" ?h] by blast
  have c2: "hit (Lookup users_node ''2.sql'' (state_after ?h))"
    using h3 h4 h5 Lookup_resolves_against_rebuilt_index [of users_node "''2.sql''" ?h] by blast
  have c3': "miss (Lookup users_node ''4.sql'' (state_after ?h))"
    using h3 h4 h6 Lookup_resolves_against_rebuilt_index [of users_node "''4.sql''" ?h] by blast
  have c4: "\<not> hit (Lookup users_node ''2.sql'' (state_after ?h3))"
    using h3 h4 h7 Lookup_resolves_against_rebuilt_index [of users_node "''2.sql''" ?h3] by blast
  show ?thesis using h1 h2 h3 h4 h5 h6 h7 c1 c2 c3' c4 by simp
qed

subsection \<open>Rebuilding the index\<close>

text \<open>
  C2, as the claim states it, fails: in the sample mount \<^verbatim>\<open>users\<close> is a collection
  before and after a second root listing, its three entries are in the index
  before, and its entry set is empty after; the lookup of \<^verbatim>\<open>1.sql\<close> turns from a
  hit into a miss.
\<close>

theorem root_listing_resets_entry_set:
  "''users'' \<in> collections s_users
   \<and> ''users'' \<in> collections (snd (Readdir db_shop root_node s_users))
   \<and> map_of (tableMap s_users) ''users'' =
       Some [(''users/1.sql'', \<lparr>path = ''users/1.sql'', name = ''1.sql''\<rparr>),
             (''users/2.sql'', \<lparr>path = ''users/2.sql'', name = ''2.sql''\<rparr>),
             (''users/3.sql'', \<lparr>path = ''users/3.sql'', name = ''3.sql''\<rparr>)]
   \<and> map_of (tableMap (snd (Readdir db_shop root_node s_users))) ''users'' = Some []
   \<and> hit (Lookup users_node ''1.sql'' s_users)
   \<and> miss (Lookup users_node ''1.sql'' (snd (Readdir db_shop root_node s_users)))"
  by code_simp

text \<open>
  C2, amended. What the index holds for a collection is changed by no request
  other than a listing of that collection itself or a root listing; and a
  successful root listing leaves every collection it fetched, whether it was
  present before or not, with an empty entry set.
\<close>

theorem entry_set_changed_only_by_listings:
  "(map_of (tableMap (snd (step x s))) c \<noteq> map_of (tableMap s) c \<longrightarrow>
      (\<exists>db r. x = Op_Readdir db r \<and> (Path r = c \<or> Path r = [])))
   \<and> (Path r = [] \<and> fst (getTables db s) = Inr C \<and> c \<in> set C \<longrightarrow>
        map_of (tableMap (snd (step (Op_Readdir db r) s))) c = Some []
        \<and> entry_set (snd (step (Op_Readdir db r) s)) c = {})"
proof (intro conjI impI)
  assume ch: "map_of (tableMap (snd (step x s))) c \<noteq> map_of (tableMap s) c"
  show "\<exists>db r. x = Op_Readdir db r \<and> (Path r = c \<or> Path r = [])"
  proof (cases x)
    case (Op_Opendir r')
    with ch show ?thesis by (simp add: Opendir_def)
  next
    case (Op_Lookup r' n)
    with ch have False using Lookup_state [of r' n s] by (simp split: prod.splits)
    then show ?thesis ..
  next
    case (Op_Readdir db' r')
    have st: "snd (step x s) = snd (Readdir db' r' s)"
      unfolding Op_Readdir by (rule snd_step_Readdir)
    have "Path r' = c \<or> Path r' = []"
    proof (rule ccontr)
      assume "\<not> (Path r' = c \<or> Path r' = [])"
      then have "Path r' \<noteq> []" "c \<noteq> Path r'" by auto
      from Readdir_coll_tableMap [OF this(1), of db' s] this(2)
      have "map_of (tableMap (snd (Readdir db' r' s))) c = map_of (tableMap s) c"
        by (auto simp: update_conv')
      with ch st show False by simp
    qed
    with Op_Readdir show ?thesis by blast
  qed
next
  assume a: "Path r = [] \<and> fst (getTables db s) = Inr C \<and> c \<in> set C"
  have "tableMap (snd (Readdir db r s)) = store_tables C []"
    using Readdir_root_tableMap [of r db s] a by simp
  then have "map_of (tableMap (snd (Readdir db r s))) c = Some []"
    using a by (simp add: store_tables_map_of)
  then show "map_of (tableMap (snd (step (Op_Readdir db r) s))) c = Some []"
    "entry_set (snd (step (Op_Readdir db r) s)) c = {}"
    unfolding snd_step_Readdir entry_set_def by simp_all
qed

text \<open>The second root listing of the sample mount empties the entry set of \<^verbatim>\<open>users\<close>.\<close>

theorem entry_set_changed_only_by_listings_witness:
  "Path root_node = [] \<and> fst (getTables db_shop s_users) = Inr [''users'', ''orders'']
   \<and> ''users'' \<in> set [''users'', ''orders'']
   \<and> map_of (tableMap (snd (step (Op_Readdir db_shop root_node) s_users))) ''users'' = Some []
   \<and> map_of (tableMap (snd (step (Op_Readdir db_shop root_node) s_users))) ''users''
       \<noteq> map_of (tableMap s_users) ''users''"
proof -
  have h1: "Path root_node = []" by code_simp
  have h2: "fst (getTables db_shop s_users) = Inr [''users'', ''orders'']" by code_simp
  have h3: "map_of (tableMap s_users) ''users'' \<noteq> Some []" by code_simp
  show ?thesis
    using h1 h2 h3
      entry_set_changed_only_by_listings [of "Op_Readdir db_shop root_node" s_users "''users''"
        root_node db_shop "[''users'', ''orders'']"]
    by simp
qed

subsection \<open>The identifier query\<close>

text \<open>
  C3 does not hold of the program. \<^verbatim>\<open>getRecordIDs\<close> wraps the name in backticks
  but does not double the backticks inside it, and no name is rejected. For the
  collection named \<^verbatim>\<open>a` UNION SELECT id FROM `b\<close> the text sent to the database is
  the query for \<^verbatim>\<open>a\<close>, the word \<^verbatim>\<open>UNION\<close> and the query for \<^verbatim>\<open>b\<close>; on the sample
  database that holds such a table, its directory lists the records of \<^verbatim>\<open>a\<close> and
  \<^verbatim>\<open>b\<close> and not its own.
\<close>

theorem Readdir_splices_name_into_query:
  "issued (snd (Readdir db union_node s)) =
     issued s @ [''SELECT id FROM `a` UNION SELECT id FROM `b`'']
   \<and> recordIDsQuery (Path union_node) = recordIDsQuery ''a'' @ '' UNION '' @ recordIDsQuery ''b''
   \<and> fst (run [Op_Readdir db_union root_node, Op_Lookup root_node (Path union_node),
                Op_Readdir db_union union_node] init) =
       [Listed (Inr [\<lparr>Name = ''a'', Mode = dirMode, Ino = 0\<rparr>, \<lparr>Name = ''b'', Mode = dirMode, Ino = 0\<rparr>,
                     \<lparr>Name = ''a` UNION SELECT id FROM `b'', Mode = dirMode, Ino = 0\<rparr>]),
        Found (Inr \<lparr>StableAttr_Mode = S_IFDIR, ops_dsn = ''fuse@/shop'', ops_debug = False\<rparr>),
        Listed (Inr [\<lparr>Name = ''1.sql'', Mode = fileMode, Ino = 0\<rparr>, \<lparr>Name = ''2.sql'', Mode = fileMode, Ino = 0\<rparr>,
                     \<lparr>Name = ''7.sql'', Mode = fileMode, Ino = 0\<rparr>, \<lparr>Name = ''8.sql'', Mode = fileMode, Ino = 0\<rparr>])]"
proof -
  have p: "Path union_node \<noteq> []" by code_simp
  have q: "recordIDsQuery (Path union_node) = ''SELECT id FROM `a` UNION SELECT id FROM `b`''"
    by code_simp
  have u: "recordIDsQuery ''a'' @ '' UNION '' @ recordIDsQuery ''b'' =
             ''SELECT id FROM `a` UNION SELECT id FROM `b`''"
    by code_simp
  have l: "issued (snd (Readdir db union_node s)) = issued s @ [recordIDsQuery (Path union_node)]"
    using p by (simp add: Readdir_def getRecordIDs_def Let_def split: sum.splits option.splits)
  have e: "fst (run [Op_Readdir db_union root_node, Op_Lookup root_node (Path union_node),
                Op_Readdir db_union union_node] init) =
       [Listed (Inr [\<lparr>Name = ''a'', Mode = dirMode, Ino = 0\<rparr>, \<lparr>Name = ''b'', Mode = dirMode, Ino = 0\<rparr>,
                     \<lparr>Name = ''a` UNION SELECT id FROM `b'', Mode = dirMode, Ino = 0\<rparr>]),
        Found (Inr \<lparr>StableAttr_Mode = S_IFDIR, ops_dsn = ''fuse@/shop'', ops_debug = False\<rparr>),
        Listed (Inr [\<lparr>Name = ''1.sql'', Mode = fileMode, Ino = 0\<rparr>, \<lparr>Name = ''2.sql'', Mode = fileMode, Ino = 0\<rparr>,
                     \<lparr>Name = ''7.sql'', Mode = fileMode, Ino = 0\<rparr>, \<lparr>Name = ''8.sql'', Mode = fileMode, Ino = 0\<rparr>])]"
    by code_simp
  show ?thesis using l q u e by simp
qed

subsection \<open>Faults\<close>

text \<open>
  C4, as the claim states it, fails: after a root listing, a lookup of \<^verbatim>\<open>users\<close>
  and a second root listing that no longer fetches \<^verbatim>\<open>users\<close>, a listing of the
  \<^verbatim>\<open>users\<close> directory whose query succeeds panics, and the process with it.
\<close>

theorem listing_of_removed_collection_panics:
  "map snd (threads (execute removal_schedule (launch removal_requests))) =
     [Done (Listed (Inr [\<lparr>Name = ''users'', Mode = dirMode, Ino = 0\<rparr>, \<lparr>Name = ''orders'', Mode = dirMode, Ino = 0\<rparr>])),
      Done (Found (Inr \<lparr>StableAttr_Mode = S_IFDIR, ops_dsn = ''fuse@/shop'', ops_debug = False\<rparr>)),
      Done (Listed (Inr [\<lparr>Name = ''orders'', Mode = dirMode, Ino = 0\<rparr>])),
      Done (Listed (Inl Panic))]
   \<and> crashed (execute removal_schedule (launch removal_requests))"
  by code_simp

text \<open>
  C4, amended. Under every interleaving of the atomic steps of any number of
  concurrent requests, started on the empty index: the threads keep serving their
  requests; a lookup never faults, and two steps of its own, whatever the other
  threads do to the memory in between, bring it to a reply that is a node or the
  not-found error; a listing at the root never faults; and a step makes the
  process crash exactly when it is the load of the index by a listing of a
  directory other than the root, whose query has succeeded, at a moment when the
  path of the directory is not a key of the index. The key is missing at that
  moment after a root rebuild has removed it, and also while a concurrent root
  rebuild has deleted it and not yet stored it again.
\<close>

theorem faults_under_interleaving:
  "map fst (threads (execute sched (launch xs))) = xs
 \<and> ((Op_Lookup r nm, p) \<in> set (threads (execute sched (launch xs))) \<longrightarrow>
       \<not> fault_pc p
       \<and> (\<exists>y. fst (thread_step k2 (Op_Lookup r nm) (fst (thread_step k1 (Op_Lookup r nm) p sh1)) sh2)
                 = Done (Found y) \<and> (y = Inl ENOENT \<or> (\<exists>child. y = Inr child))))
 \<and> ((Op_Readdir db r, p) \<in> set (threads (execute sched (launch xs))) \<and> Path r = [] \<longrightarrow> \<not> fault_pc p)
 \<and> (\<not> crashed (execute sched (launch xs)) \<longrightarrow>
       (crashed (sched_step (i, pick) (execute sched (launch xs))) \<longleftrightarrow>
          i < length xs
          \<and> (\<exists>db' r' els. threads (execute sched (launch xs)) ! i = (Op_Readdir db' r', Coll_Fetched els)
                \<and> Path r' \<noteq> [] \<and> fetched_names db' (Path r') = Inr els
                \<and> map_of (index (mem (execute sched (launch xs)))) (Path r') = None)))"
proof -
  let ?c = "execute sched (launch xs)"
  have ok: "list_all thread_ok (threads ?c)" by (rule execute_ok [OF launch_ok])
  have ts: "map fst (threads ?c) = xs" by (simp add: execute_threads launch_threads)
  then have len: "length (threads ?c) = length xs" by (metis length_map)
  have lk: "(Op_Lookup r nm, p) \<in> set (threads ?c) \<Longrightarrow>
       \<not> fault_pc p
       \<and> (\<exists>y. fst (thread_step k2 (Op_Lookup r nm) (fst (thread_step k1 (Op_Lookup r nm) p sh1)) sh2)
                 = Done (Found y) \<and> (y = Inl ENOENT \<or> (\<exists>child. y = Inr child)))"
  proof -
    assume "(Op_Lookup r nm, p) \<in> set (threads ?c)"
    then have t: "thread_ok (Op_Lookup r nm, p)" using ok by (auto simp: list_all_iff)
    then have "\<not> fault_pc p"
      by (cases p) (auto simp: fault_pc_def split: reply.splits)
    with Lookup_thread_returns [OF t] show ?thesis by blast
  qed
  have rt: "(Op_Readdir db r, p) \<in> set (threads ?c) \<and> Path r = [] \<Longrightarrow> \<not> fault_pc p"
  proof -
    assume a: "(Op_Readdir db r, p) \<in> set (threads ?c) \<and> Path r = []"
    then have "thread_ok (Op_Readdir db r, p)" using ok by (auto simp: list_all_iff)
    with a show ?thesis
      by (cases p) (auto simp: fault_pc_def split: reply.splits)
  qed
  have cr: "\<not> crashed ?c \<Longrightarrow>
       (crashed (sched_step (i, pick) ?c) \<longleftrightarrow>
          i < length xs
          \<and> (\<exists>db' r' els. threads ?c ! i = (Op_Readdir db' r', Coll_Fetched els)
                \<and> Path r' \<noteq> [] \<and> fetched_names db' (Path r') = Inr els
                \<and> map_of (index (mem ?c)) (Path r') = None))"
  proof -
    assume nc: "\<not> crashed ?c"
    have "i < length xs \<Longrightarrow> threads ?c ! i = (Op_Readdir db' r', Coll_Fetched els)
            \<Longrightarrow> Path r' \<noteq> [] \<and> fetched_names db' (Path r') = Inr els" for db' r' els
      using ok len by (auto simp: list_all_length dest!: spec [of _ i])
    then show ?thesis
      unfolding sched_step_crashed [OF nc ok] len by blast
  qed
  show ?thesis using ts lk rt cr by blast
qed

text \<open>
  The second execution of the sample mount: both root listings fetch \<^verbatim>\<open>users\<close>,
  the process has not crashed, and the next step of the listing of \<^verbatim>\<open>users\<close>
  crashes it; the lookup and the root listing under way are no faults.
\<close>

theorem faults_under_interleaving_witness:
  "\<not> crashed (execute window_schedule (launch window_requests))
   \<and> map snd (threads (execute window_schedule (launch window_requests))) =
       [Done (Listed (Inr [\<lparr>Name = ''users'', Mode = dirMode, Ino = 0\<rparr>, \<lparr>Name = ''orders'', Mode = dirMode, Ino = 0\<rparr>])),
        Root_Range [''users'', ''orders''] [''orders''] [''users''],
        Coll_Fetched [''1.sql'', ''2.sql'', ''3.sql''],
        Start]
   \<and> fetched_tables db_shop = Inr [''users'', ''orders'']
   \<and> Path users_node \<noteq> []
   \<and> fetched_names db_shop (Path users_node) = Inr [''1.sql'', ''2.sql'', ''3.sql'']
   \<and> map_of (index (mem (execute window_schedule (launch window_requests)))) (Path users_node) = None
   \<and> crashed (sched_step (2, None) (execute window_schedule (launch window_requests)))
   \<and> \<not> fault_pc (snd (threads (execute window_schedule (launch window_requests)) ! 3))
   \<and> \<not> fault_pc (snd (threads (execute window_schedule (launch window_requests)) ! 1))"
proof -
  let ?c = "execute window_schedule (launch window_requests)"
  note T = faults_under_interleaving [where sched = window_schedule and xs = window_requests]
  have h1: "\<not> crashed ?c" by code_simp
  have h2: "map snd (threads ?c) =
       [Done (Listed (Inr [\<lparr>Name = ''users'', Mode = dirMode, Ino = 0\<rparr>, \<lparr>Name = ''orders'', Mode = dirMode, Ino = 0\<rparr>])),
        Root_Range [''users'', ''orders''] [''orders''] [''users''],
        Coll_Fetched [''1.sql'', ''2.sql'', ''3.sql''],
        Start]" by code_simp
  have h3: "fetched_tables db_shop = Inr [''users'', ''orders'']" by code_simp
  have h4: "Path users_node \<noteq> []" "Path root_node = []" by code_simp+
  have h5: "fetched_names db_shop (Path users_node) = Inr [''1.sql'', ''2.sql'', ''3.sql'']" by code_simp
  have h6: "map_of (index (mem ?c)) (Path users_node) = None" by code_simp
  have fs: "map fst (threads ?c) = window_requests"
    using T by blast
  have len: "length (threads ?c) = 4"
    using arg_cong [OF fs, of length] by (simp add: window_requests_def)
  have f: "fst (threads ?c ! 1) = Op_Readdir db_shop root_node"
    "fst (threads ?c ! 2) = Op_Readdir db_shop users_node"
    "fst (threads ?c ! 3) = Op_Lookup users_node ''2.sql''"
    using fs len nth_map [of 1 "threads ?c" fst] nth_map [of 2 "threads ?c" fst]
      nth_map [of 3 "threads ?c" fst]
    by (simp_all add: window_requests_def)
  have p: "snd (threads ?c ! 1) = Root_Range [''users'', ''orders''] [''orders''] [''users'']"
    "snd (threads ?c ! 2) = Coll_Fetched [''1.sql'', ''2.sql'', ''3.sql'']"
    "snd (threads ?c ! 3) = Start"
    using h2 len nth_map [of 1 "threads ?c" snd] nth_map [of 2 "threads ?c" snd]
      nth_map [of 3 "threads ?c" snd]
    by simp_all
  have t1: "(Op_Readdir db_shop root_node, snd (threads ?c ! 1)) \<in> set (threads ?c)"
  proof -
    have "threads ?c ! 1 \<in> set (threads ?c)" by (rule nth_mem) (simp add: len)
    then have "(fst (threads ?c ! 1), snd (threads ?c ! 1)) \<in> set (threads ?c)" by simp
    then show ?thesis unfolding f(1) .
  qed
  have t2: "threads ?c ! 2 = (Op_Readdir db_shop users_node, Coll_Fetched [''1.sql'', ''2.sql'', ''3.sql''])"
    using f(2) p(2) by (simp add: prod_eq_iff)
  have t3: "(Op_Lookup users_node ''2.sql'', snd (threads ?c ! 3)) \<in> set (threads ?c)"
  proof -
    have "threads ?c ! 3 \<in> set (threads ?c)" by (rule nth_mem) (simp add: len)
    then have "(fst (threads ?c ! 3), snd (threads ?c ! 3)) \<in> set (threads ?c)" by simp
    then show ?thesis unfolding f(3) .
  qed
  have ex: "\<exists>db' r' els. threads ?c ! 2 = (Op_Readdir db' r', Coll_Fetched els)
              \<and> Path r' \<noteq> [] \<and> fetched_names db' (Path r') = Inr els
              \<and> map_of (index (mem ?c)) (Path r') = None"
    using t2 h4(1) h5 h6 by blast
  have i: "(2::nat) < length window_requests" by (simp add: window_requests_def)
  have c1: "crashed (sched_step (2, None) ?c)"
    using faults_under_interleaving [where sched = window_schedule and xs = window_requests
        and i = 2 and pick = None] h1 ex i
    by blast
  have c2: "\<not> fault_pc (snd (threads ?c ! 3))"
    using faults_under_interleaving [where sched = window_schedule and xs = window_requests
        and r = users_node and nm = "''2.sql''" and p = "snd (threads ?c ! 3)"] t3
    by blast
  have c3: "\<not> fault_pc (snd (threads ?c ! 1))"
    using faults_under_interleaving [where sched = window_schedule and xs = window_requests
        and db = db_shop and r = root_node and p = "snd (threads ?c ! 1)"] t1 h4(2)
    by blast
  show ?thesis using h1 h2 h3 h4 h5 h6 c1 c2 c3 by simp
qed

subsection \<open>Listings\<close>

text \<open>
  C5. When the catalog query returns the names \<open>C\<close>, the root listing returns one
  entry per element of \<open>C\<close>, in the same order and with the same repetitions, each
  with the directory mode, whose file-type bits are those of a directory; and the
  collection set of the index becomes the set of the names in \<open>C\<close>.
\<close>

theorem Readdir_root_lists_catalog:
  assumes "Path r = []" and "fst (getTables db s) = Inr C"
  shows "fst (Readdir db r s) = Inr (map (\<lambda>n. \<lparr>Name = n, Mode = dirMode, Ino = 0\<rparr>) C)
       \<and> dirMode AND S_IFMT = S_IFDIR
       \<and> collections (snd (Readdir db r s)) = set C"
  using Readdir_root_ok [OF assms(1) pair_fst [OF assms(2)]]
  by (simp add: dir_list_map modes collections_def store_tables_keys)

text \<open>The root listing of the sample mount.\<close>

theorem Readdir_root_lists_catalog_witness:
  "Path root_node = [] \<and> fst (getTables db_shop init) = Inr [''users'', ''orders'']
   \<and> fst (Readdir db_shop root_node init) =
       Inr [\<lparr>Name = ''users'', Mode = dirMode, Ino = 0\<rparr>, \<lparr>Name = ''orders'', Mode = dirMode, Ino = 0\<rparr>]
   \<and> collections (snd (Readdir db_shop root_node init)) = {''users'', ''orders''}"
proof -
  have h1: "Path root_node = []" by code_simp
  have h2: "fst (getTables db_shop init) = Inr [''users'', ''orders'']" by code_simp
  show ?thesis
    using h1 h2 Readdir_root_lists_catalog [OF h1 h2] by simp
qed

text \<open>
  C6. When the identifier query of a collection of the index returns the
  identifiers \<open>I\<close>, the listing of that collection returns one entry per element of
  \<open>I\<close>, named by the decimal rendering of the identifier followed by \<^verbatim>\<open>.sql\<close>, each
  with the regular-file mode, whose file-type bits are those of a regular file.
  The rendering of \<open>w\<close> is a minus sign for a negative value and then the decimal
  digits that denote its magnitude.
\<close>

theorem Readdir_collection_lists_records:
  assumes "Path r \<noteq> []" and "fst (getRecordIDs db (Path r) s) = Inr I"
    and "Path r \<in> collections s"
  shows "fst (Readdir db r s) =
           Inr (map (\<lambda>id. \<lparr>Name = Sprintf_d id @ ''.sql'', Mode = fileMode, Ino = 0\<rparr>) I)
       \<and> fileMode AND S_IFMT = S_IFREG
       \<and> Sprintf_d w = (if sint w < 0 then ''-'' else []) @ decimal (nat \<bar>sint w\<bar>)
       \<and> decimal_value 0 (decimal (nat \<bar>sint w\<bar>)) = nat \<bar>sint w\<bar>"
proof -
  obtain m where m: "map_of (tableMap s) (Path r) = Some m"
    using assms(3) by (auto simp: in_collections)
  show ?thesis
    using Readdir_coll_ok [OF assms(1) pair_fst [OF assms(2)] m]
    by (simp add: dir_list_map render_ids_map modes decimal_value_decimal Sprintf_d_def o_def)
qed

text \<open>The listing of \<^verbatim>\<open>users\<close> in the sample mount.\<close>

theorem Readdir_collection_lists_records_witness:
  "Path users_node \<noteq> [] \<and> fst (getRecordIDs db_shop (Path users_node) s_root) = Inr [1, 2, 3]
   \<and> Path users_node \<in> collections s_root
   \<and> fst (Readdir db_shop users_node s_root) =
       Inr [\<lparr>Name = ''1.sql'', Mode = fileMode, Ino = 0\<rparr>, \<lparr>Name = ''2.sql'', Mode = fileMode, Ino = 0\<rparr>,
            \<lparr>Name = ''3.sql'', Mode = fileMode, Ino = 0\<rparr>]"
proof -
  have h1: "Path users_node \<noteq> []" by code_simp
  have h2: "fst (getRecordIDs db_shop (Path users_node) s_root) = Inr [1, 2, 3]" by code_simp
  have h3: "Path users_node \<in> collections s_root" by code_simp
  have r: "Sprintf_d 1 = ''1''" "Sprintf_d 2 = ''2''" "Sprintf_d 3 = ''3''" by code_simp+
  show ?thesis
    using h1 h2 h3 Readdir_collection_lists_records [OF h1 h2 h3] by (simp add: r)
qed

text \<open>
  C7. A listing of a collection directory leaves every other key of the index as it
  was: whether it is a collection, and the entry set stored for it.
\<close>

theorem Readdir_collection_frame:
  assumes "Path r \<noteq> []" and "c \<noteq> Path r"
  shows "map_of (tableMap (snd (Readdir db r s))) c = map_of (tableMap s) c
       \<and> (c \<in> collections (snd (Readdir db r s)) \<longleftrightarrow> c \<in> collections s)
       \<and> entry_set (snd (Readdir db r s)) c = entry_set s c"
proof -
  have 1: "map_of (tableMap (snd (Readdir db r s))) c = map_of (tableMap s) c"
    using Readdir_coll_tableMap [OF assms(1), of db s] assms(2)
    by (auto simp: update_conv')
  have 2: "collections (snd (Readdir db r s)) = collections s"
  proof -
    consider "tableMap (snd (Readdir db r s)) = tableMap s"
      | m' where "tableMap (snd (Readdir db r s)) = AList.update (Path r) m' (tableMap s)"
          "Path r \<in> collections s"
      using Readdir_coll_tableMap [OF assms(1), of db s] by blast
    then show ?thesis
    proof cases
      case 1
      then show ?thesis by (simp add: collections_def)
    next
      case 2
      have "fst ` set (AList.update (Path r) m' (tableMap s)) = {Path r} \<union> fst ` set (tableMap s)"
        by (rule dom_update)
      with 2 show ?thesis by (auto simp: collections_def)
    qed
  qed
  show ?thesis using 1 2 by (simp add: entry_set_def)
qed

text \<open>
  Listing \<^verbatim>\<open>users\<close> in the sample mount leaves \<^verbatim>\<open>orders\<close> a collection with no
  entries; listing \<^verbatim>\<open>orders\<close> leaves \<^verbatim>\<open>users\<close> a collection with its three entries.
\<close>

theorem Readdir_collection_frame_witness:
  "Path users_node \<noteq> [] \<and> ''orders'' \<noteq> Path users_node
   \<and> map_of (tableMap (snd (Readdir db_shop users_node s_root))) ''orders'' = Some []
   \<and> ''orders'' \<in> collections (snd (Readdir db_shop users_node s_root))
   \<and> Path orders_node \<noteq> [] \<and> ''users'' \<noteq> Path orders_node
   \<and> map_of (tableMap (snd (Readdir db_shop orders_node s_users))) ''users'' =
       Some [(''users/1.sql'', \<lparr>path = ''users/1.sql'', name = ''1.sql''\<rparr>),
             (''users/2.sql'', \<lparr>path = ''users/2.sql'', name = ''2.sql''\<rparr>),
             (''users/3.sql'', \<lparr>path = ''users/3.sql'', name = ''3.sql''\<rparr>)]
   \<and> ''users'' \<in> collections (snd (Readdir db_shop orders_node s_users))"
proof -
  have h1: "Path users_node \<noteq> []" by code_simp
  have h2: "''orders'' \<noteq> Path users_node" by code_simp
  have h3: "map_of (tableMap s_root) ''orders'' = Some []" by code_simp
  have h4: "''orders'' \<in> collections s_root" by code_simp
  have h5: "Path orders_node \<noteq> []" by code_simp
  have h6: "''users'' \<noteq> Path orders_node" by code_simp
  have h7: "map_of (tableMap s_users) ''users'' =
       Some [(''users/1.sql'', \<lparr>path = ''users/1.sql'', name = ''1.sql''\<rparr>),
             (''users/2.sql'', \<lparr>path = ''users/2.sql'', name = ''2.sql''\<rparr>),
             (''users/3.sql'', \<lparr>path = ''users/3.sql'', name = ''3.sql''\<rparr>)]" by code_simp
  have h8: "''users'' \<in> collections s_users" by code_simp
  show ?thesis
    using h1 h2 h3 h4 h5 h6 h7 h8 Readdir_collection_frame [OF h1 h2, of db_shop s_root]
      Readdir_collection_frame [OF h5 h6, of db_shop s_users]
    by simp
qed

text \<open>
  C8. When the catalog query of a root listing, or the identifier query of a
  collection listing, fails with any error \<open>e\<close>, be it that the query is refused
  or that the iteration over its rows ends with an error, the listing returns the
  not-found error, whatever \<open>e\<close> is, and the index is left as it was.
\<close>

theorem Readdir_backend_failure_ENOENT:
  "(Path r = []
      \<and> (QueryContext_string db ''SHOW tables'' = Inl e
           \<or> (\<exists>rows. QueryContext_string db ''SHOW tables'' = Inr rows \<and> Err rows = Some e)) \<longrightarrow>
       fst (Readdir db r s) = Inl ENOENT \<and> tableMap (snd (Readdir db r s)) = tableMap s)
 \<and> (Path r \<noteq> []
      \<and> (QueryContext_int64 db (recordIDsQuery (Path r)) = Inl e
           \<or> (\<exists>rows. QueryContext_int64 db (recordIDsQuery (Path r)) = Inr rows \<and> Err rows = Some e)) \<longrightarrow>
       fst (Readdir db r s) = Inl ENOENT \<and> tableMap (snd (Readdir db r s)) = tableMap s)"
proof (intro conjI impI)
  assume a: "Path r = []
      \<and> (QueryContext_string db ''SHOW tables'' = Inl e
           \<or> (\<exists>rows. QueryContext_string db ''SHOW tables'' = Inr rows \<and> Err rows = Some e))"
  then have f: "fst (getTables db s) = Inl e" by (simp add: getTables_fails_iff)
  have "Readdir db r s = (Inl ENOENT, snd (getTables db s))"
    by (rule Readdir_root_err [OF conjunct1 [OF a] pair_fst [OF f]])
  then show "fst (Readdir db r s) = Inl ENOENT" "tableMap (snd (Readdir db r s)) = tableMap s"
    by (simp_all add: getTables_state)
next
  assume a: "Path r \<noteq> []
      \<and> (QueryContext_int64 db (recordIDsQuery (Path r)) = Inl e
           \<or> (\<exists>rows. QueryContext_int64 db (recordIDsQuery (Path r)) = Inr rows \<and> Err rows = Some e))"
  then have f: "fst (getRecordIDs db (Path r) s) = Inl e" by (simp add: getRecordIDs_fails_iff)
  have "Readdir db r s = (Inl ENOENT, snd (getRecordIDs db (Path r) s))"
    by (rule Readdir_coll_err [OF conjunct1 [OF a] pair_fst [OF f]])
  then show "fst (Readdir db r s) = Inl ENOENT" "tableMap (snd (Readdir db r s)) = tableMap s"
    by (simp_all add: getRecordIDs_state)
qed

text \<open>
  A dropped connection at the root and in \<^verbatim>\<open>users\<close>, and a dropped table, all end
  in the same error.
\<close>

theorem Readdir_backend_failure_ENOENT_witness:
  "Path root_node = [] \<and> QueryContext_string db_down ''SHOW tables'' = Inl ErrBadConn
   \<and> fst (Readdir db_down root_node s_users) = Inl ENOENT
   \<and> Path users_node \<noteq> []
   \<and> QueryContext_int64 db_down (recordIDsQuery (Path users_node)) = Inl ErrBadConn
   \<and> fst (Readdir db_down users_node s_users) = Inl ENOENT
   \<and> QueryContext_int64 db_dropped (recordIDsQuery (Path users_node)) = Inl ErrNoSuchTable
   \<and> fst (Readdir db_dropped users_node s_users) = Inl ENOENT
   \<and> tableMap (snd (Readdir db_dropped users_node s_users)) = tableMap s_users"
proof -
  have h1: "Path root_node = []" by code_simp
  have h2: "QueryContext_string db_down ''SHOW tables'' = Inl ErrBadConn" by code_simp
  have h3: "Path users_node \<noteq> []" by code_simp
  have h4: "QueryContext_int64 db_down (recordIDsQuery (Path users_node)) = Inl ErrBadConn" by code_simp
  have h5: "QueryContext_int64 db_dropped (recordIDsQuery (Path users_node)) = Inl ErrNoSuchTable"
    by code_simp
  show ?thesis
    using h1 h2 h3 h4 h5
      Readdir_backend_failure_ENOENT [of root_node db_down ErrBadConn s_users]
      Readdir_backend_failure_ENOENT [of users_node db_down ErrBadConn s_users]
      Readdir_backend_failure_ENOENT [of users_node db_dropped ErrNoSuchTable s_users]
    by simp
qed

text \<open>
  C9. When two listings of the same collection directory in a row fetch the same
  identifiers, the second leaves the index as the first left it, so every lookup,
  in that collection and anywhere else, has the same result after the second as
  after the first.
\<close>

theorem Readdir_twice_same_lookups:
  assumes "Path r \<noteq> []"
    and "fst (getRecordIDs db (Path r) s) = Inr I"
    and "fst (getRecordIDs db' (Path r) (snd (Readdir db r s))) = Inr I"
  shows "tableMap (snd (Readdir db' r (snd (Readdir db r s)))) = tableMap (snd (Readdir db r s))
       \<and> (hit (Lookup r x (snd (Readdir db' r (snd (Readdir db r s)))))
            \<longleftrightarrow> hit (Lookup r x (snd (Readdir db r s))))
       \<and> fst (Lookup r' x' (snd (Readdir db' r (snd (Readdir db r s)))))
            = fst (Lookup r' x' (snd (Readdir db r s)))"
proof -
  let ?s1 = "snd (Readdir db r s)"
  have tm: "tableMap (snd (Readdir db' r ?s1)) = tableMap ?s1"
  proof (cases "map_of (tableMap s) (Path r)")
    case None
    from Readdir_coll_panic [OF assms(1) pair_fst [OF assms(2)] None]
    have 1: "tableMap ?s1 = tableMap s" by (simp add: getRecordIDs_state)
    then have "map_of (tableMap ?s1) (Path r) = None" using None by simp
    from Readdir_coll_panic [OF assms(1) pair_fst [OF assms(3)] this]
    show ?thesis by (simp add: getRecordIDs_state)
  next
    case (Some m)
    let ?m' = "store_entries (Path r) (render_ids I) []"
    from Readdir_coll_ok [OF assms(1) pair_fst [OF assms(2)] Some]
    have 1: "tableMap ?s1 = AList.update (Path r) ?m' (tableMap s)"
      by (simp add: getRecordIDs_state)
    then have "map_of (tableMap ?s1) (Path r) = Some ?m'" by (simp add: update_conv')
    from Readdir_coll_ok [OF assms(1) pair_fst [OF assms(3)] this]
    show ?thesis by (simp add: getRecordIDs_state 1)
  qed
  show ?thesis
    using Lookup_tableMap_cong [OF tm] by (simp add: tm hit_def)
qed

text \<open>Listing \<^verbatim>\<open>users\<close> twice in the sample mount: \<^verbatim>\<open>2.sql\<close> resolves after each.\<close>

theorem Readdir_twice_same_lookups_witness:
  "Path users_node \<noteq> [] \<and> fst (getRecordIDs db_shop (Path users_node) s_root) = Inr [1, 2, 3]
   \<and> fst (getRecordIDs db_shop (Path users_node) (snd (Readdir db_shop users_node s_root))) = Inr [1, 2, 3]
   \<and> hit (Lookup users_node ''2.sql'' (snd (Readdir db_shop users_node s_root)))
   \<and> hit (Lookup users_node ''2.sql'' (snd (Readdir db_shop users_node (snd (Readdir db_shop users_node s_root)))))"
proof -
  have h1: "Path users_node \<noteq> []" by code_simp
  have h2: "fst (getRecordIDs db_shop (Path users_node) s_root) = Inr [1, 2, 3]" by code_simp
  have h3: "fst (getRecordIDs db_shop (Path users_node) (snd (Readdir db_shop users_node s_root))) = Inr [1, 2, 3]"
    by code_simp
  have h4: "hit (Lookup users_node ''2.sql'' (snd (Readdir db_shop users_node s_root)))" by code_simp
  show ?thesis
    using h1 h2 h3 h4 Readdir_twice_same_lookups [OF h1 h2 h3, of "''2.sql''"] by simp
qed

subsection \<open>Opening a directory\<close>

text \<open>
  C10. For every node, whatever its path (root, collection directory or entry
  leaf), \<^verbatim>\<open>Opendir\<close> returns success and leaves the whole state, index and query
  log, as it was; in particular an entry leaf is not refused as not-a-directory.
\<close>

theorem Opendir_ok_unchanged: "Opendir r s = (Inr (), s)"
  by (simp add: Opendir_def)

end
